theory Spec2Isabelle
  imports Complex_Main
begin

section \<open>Symbolic expressions\<close>

text \<open>
  The notebook computes with exact symbolic expressions in the symbols \<open>x\<close>, \<open>y\<close> and
  the factor \<open>z = sqrt(1 - x**2 - y**2)\<close>.  Every expression it builds is a sum of
  addends \<open>c * x**a * y**b * z**k\<close> with a constant \<open>c\<close> (a product of rationals, square
  roots and powers of \<open>pi\<close>) and natural exponents.  An addend is a pair of the real
  number the constant denotes and the exponent triple; an expression is the list of its
  addends, kept the way the computer algebra system keeps a sum: like terms merged,
  no addend with coefficient zero.
\<close>

type_synonym monomial = "nat \<times> nat \<times> nat"

type_synonym expr = "(real \<times> monomial) list"

datatype var = VarX | VarY | VarZ

fun exponent :: "var \<Rightarrow> monomial \<Rightarrow> nat" where
  "exponent VarX (a, b, k) = a"
| "exponent VarY (a, b, k) = b"
| "exponent VarZ (a, b, k) = k"

text \<open>\<open>res += c * mono\<close>: adding one addend to a sum.\<close>

fun add_term :: "real \<times> monomial \<Rightarrow> expr \<Rightarrow> expr" where
  "add_term (c, m) [] = (if c = 0 then [] else [(c, m)])"
| "add_term (c, m) ((c', m') # e) =
     (if c = 0 then (c', m') # e
      else if m = m' then (if c' + c = 0 then e else (c' + c, m') # e)
      else (c', m') # add_term (c, m) e)"

text \<open>The coefficient of a monomial in an expression, and the value of a constant one.\<close>

definition coeff_of :: "expr \<Rightarrow> monomial \<Rightarrow> real" where
  "coeff_of e t = sum_list (map fst (filter (\<lambda>a. snd a = t) e))"

definition is_const :: "expr \<Rightarrow> bool" where
  "is_const e = list_all (\<lambda>a. snd a = (0, 0, 0)) e"

definition const_val :: "expr \<Rightarrow> real" where
  "const_val e = sum_list (map fst e)"

text \<open>
  \<open>e.subs(v, 0)\<close> for one of the three factors: an addend with a positive power of \<open>v\<close>
  vanishes, the others stay.
\<close>

definition subs_zero :: "var \<Rightarrow> expr \<Rightarrow> expr" where
  "subs_zero v e = filter (\<lambda>a. exponent v (snd a) = 0) e"

text \<open>\<open>e.subs(sqrt(1 - x ** 2 - y ** 2), 0).subs(x, 0).subs(y, 0)\<close>\<close>

definition subs_all_zero :: "expr \<Rightarrow> expr" where
  "subs_all_zero e = subs_zero VarY (subs_zero VarX (subs_zero VarZ e))"

text \<open>
  \<open>expression.coeff(term)\<close>.  For a term with at least one factor the library splits the
  term and every addend into their sets of factors (a power \<open>x**a\<close> is one factor, and
  different from \<open>x**b\<close> for \<open>b \<noteq> a\<close>); an addend whose factors include all factors of
  the term contributes the product of its remaining factors, and the contributions are
  summed.

  The term \<open>1\<close> has no factor, and the library has a branch of its own for it: it returns
  the sum of the addends whose numeric coefficient, the rational number in front of the
  addend, is \<open>1\<close>.  For an addend with a rational constant that number is the constant
  itself, and the branch is used below on such addends only; the rational number in front
  of an irrational constant is not a function of the real number it denotes.  \<open>p_Y\<close> never
  passes the term \<open>1\<close>: it takes the constant term by substitution.
\<close>

definition factors :: "monomial \<Rightarrow> (var \<times> nat) list" where
  "factors m = filter (\<lambda>f. 0 < snd f) (map (\<lambda>v. (v, exponent v m)) [VarX, VarY, VarZ])"

definition has_factors :: "monomial \<Rightarrow> monomial \<Rightarrow> bool" where
  "has_factors t m = list_all (\<lambda>f. f \<in> set (factors m)) (factors t)"

definition power_in :: "(var \<times> nat) list \<Rightarrow> var \<Rightarrow> nat" where
  "power_in fs v = (case map_of fs v of None \<Rightarrow> 0 | Some a \<Rightarrow> a)"

definition residual :: "monomial \<Rightarrow> monomial \<Rightarrow> monomial" where
  "residual t m =
     (let fs = filter (\<lambda>f. f \<notin> set (factors t)) (factors m)
      in (power_in fs VarX, power_in fs VarY, power_in fs VarZ))"

definition coeff :: "expr \<Rightarrow> monomial \<Rightarrow> expr" where
  "coeff e t =
     (if factors t = [] then filter (\<lambda>a. fst a = 1) e
      else fold add_term (map (\<lambda>a. (fst a, residual t (snd a))) (filter (\<lambda>a. has_factors t (snd a)) e)) [])"

section \<open>The polynomial basis and the coefficient extractor\<close>

definition poly_basis :: "nat \<Rightarrow> monomial" where
  "poly_basis n =
     (let l = \<lfloor>sqrt (real n)\<rfloor>;
          m = int n - l * l - l;
          mu = l - m;
          nu = l + m
      in if nu mod 2 = 0 then (nat (mu div 2), nat (nu div 2), 0)
         else (nat ((mu - 1) div 2), nat ((nu - 1) div 2), 1))"


definition Coefficient :: "expr \<Rightarrow> monomial \<Rightarrow> expr" where
  "Coefficient e t = subs_all_zero (coeff e t)"

section \<open>Factorials\<close>

text \<open>
  The library's \<open>factorial\<close> on a Python integer is the usual factorial, and complex
  infinity on a negative integer (it does not raise).  \<open>None\<close> stands for a value that is
  not a finite number.
\<close>

definition factorial :: "int \<Rightarrow> real option" where
  "factorial n = (if n < 0 then None else Some (fact (nat n)))"

text \<open>
  \<open>gamma_half k\<close> is the value of the gamma function at \<open>k + 1/2\<close>: \<open>sqrt pi\<close> at
  \<open>k = 0\<close>, and \<open>Gamma(t + 1) = t * Gamma(t)\<close> upwards and downwards from there.
\<close>

definition gamma_half :: "int \<Rightarrow> real" where
  "gamma_half k =
     (if 0 \<le> k then sqrt pi * (\<Prod>i<nat k. (real i + 1 / 2))
      else sqrt pi / (\<Prod>i<nat (- k). (- real i - 1 / 2)))"

text \<open>
  \<open>factorial(Rational(n, 2))\<close>: the factorial of the integer \<open>n / 2\<close> for even \<open>n\<close>; for
  odd \<open>n\<close> the expression stays symbolic until \<open>simplify\<close> rewrites it to the gamma
  function at \<open>n / 2 + 1\<close>.
\<close>

definition factorial_half :: "int \<Rightarrow> real option" where
  "factorial_half n =
     (if even n then factorial (n div 2) else Some (gamma_half ((n + 1) div 2)))"

section \<open>The spherical harmonics\<close>

definition KroneckerDelta :: "int \<Rightarrow> int \<Rightarrow> real" where
  "KroneckerDelta i j = (if i = j then 1 else 0)"

text \<open>
  A quotient with a finite numerator and an infinite denominator is zero; an infinite
  numerator leaves no finite value.
\<close>

definition SA :: "int \<Rightarrow> int \<Rightarrow> real option" where
  "SA l m =
     (case (factorial (l - m), factorial (l + m)) of
        (Some a, Some b) \<Rightarrow>
          Some (sqrt ((2 - KroneckerDelta m 0) * (2 * real_of_int l + 1) * a / (4 * pi * b)))
      | (Some a, None) \<Rightarrow> Some 0
      | (None, _) \<Rightarrow> None)"

text \<open>
  The ratio term of \<open>SB\<close>.  The factorial of a negative integer is complex infinity, and
  a finite number divided by it is \<open>0\<close>: the value that the handler of the \<open>try\<close> statement
  assigns as well, should the library raise \<open>ValueError\<close> instead.
\<close>

definition ratio :: "int \<Rightarrow> int \<Rightarrow> int \<Rightarrow> real option" where
  "ratio l m k =
     (case (factorial_half (l + m + k - 1), factorial_half (- l + m + k - 1)) of
        (Some a, Some b) \<Rightarrow> Some (a / b)
      | (Some a, None) \<Rightarrow> Some 0
      | (None, _) \<Rightarrow> None)"

text \<open>
  \<open>Rational(p, q)\<close> takes finite integers only: an infinite factorial among its arguments
  is an error (\<open>None\<close>).
\<close>

definition SB :: "int \<Rightarrow> int \<Rightarrow> int \<Rightarrow> int \<Rightarrow> real option" where
  "SB l m j k =
     (case (factorial m, factorial j, factorial k, factorial (m - j), factorial (l - m - k)) of
        (Some fm, Some fj, Some fk, Some fmj, Some flmk) \<Rightarrow>
          (case ratio l m k of
             Some r \<Rightarrow> Some (2 ^ nat l * (fm / (fj * fk * fmj * flmk)) * r)
           | None \<Rightarrow> None)
      | _ \<Rightarrow> None)"

definition SC :: "int \<Rightarrow> int \<Rightarrow> int \<Rightarrow> real option" where
  "SC p q k =
     (case factorial_half k of
        None \<Rightarrow> None
      | Some a \<Rightarrow>
          (case (factorial_half q, factorial_half (k - p), factorial_half (p - q)) of
             (Some b, Some c, Some d) \<Rightarrow> Some (a / (b * c * d))
           | _ \<Rightarrow> Some 0))"

text \<open>\<open>range(a, b, 2)\<close>\<close>

definition range2 :: "int \<Rightarrow> int \<Rightarrow> int list" where
  "range2 a b = map (\<lambda>i. a + 2 * int i) [0..<nat ((b - a + 1) div 2)]"

text \<open>
  One addend of the sums in \<open>Y\<close>:
  \<open>(-1) ** (s // 2) * SA(l, m) * SB(l, m, j, k) * SC(p, q, kc) * x ** (m - j + p - q) * y ** (j + q) * z ** ez\<close>.
  The exponents are never negative in the loops below, where \<open>j \<le> m\<close> and \<open>q \<le> p\<close>.
\<close>

definition Y_term :: "int \<Rightarrow> int \<Rightarrow> int \<Rightarrow> int \<Rightarrow> int \<Rightarrow> int \<Rightarrow> int \<Rightarrow> int \<Rightarrow> nat \<Rightarrow> (real \<times> monomial) option" where
  "Y_term s l m j k p q kc ez =
     (case (SA l m, SB l m j k, SC p q kc) of
        (Some a, Some b, Some c) \<Rightarrow>
          Some ((- 1) ^ nat (s div 2) * a * b * c, (nat (m - j + p - q), nat (j + q), ez))
      | _ \<Rightarrow> None)"

text \<open>The addends of \<open>Y(l, m, x, y)\<close> in the order the loops produce them.\<close>

definition Y_terms :: "int \<Rightarrow> int \<Rightarrow> (real \<times> monomial) option list" where
  "Y_terms l m =
     (if m \<ge> 0 then
        concat (map (\<lambda>j.
          [Y_term (j + p) l m j k p q k 0.
             k \<leftarrow> range2 0 (l - m + 1), p \<leftarrow> range2 0 (k + 1), q \<leftarrow> range2 0 (p + 1)] @
          [Y_term (j + p) l m j k p q (k - 1) 1.
             k \<leftarrow> range2 1 (l - m + 1), p \<leftarrow> range2 0 k, q \<leftarrow> range2 0 (p + 1)])
          (range2 0 (m + 1)))
      else
        concat (map (\<lambda>j.
          [Y_term (j + p - 1) l \<bar>m\<bar> j k p q k 0.
             k \<leftarrow> range2 0 (l - \<bar>m\<bar> + 1), p \<leftarrow> range2 0 (k + 1), q \<leftarrow> range2 0 (p + 1)] @
          [Y_term (j + p - 1) l \<bar>m\<bar> j k p q (k - 1) 1.
             k \<leftarrow> range2 1 (l - \<bar>m\<bar> + 1), p \<leftarrow> range2 0 k, q \<leftarrow> range2 0 (p + 1)])
          (range2 1 (\<bar>m\<bar> + 1))))"

text \<open>An addend that has no finite value (or raised) leaves \<open>Y\<close> without a result.\<close>

definition Y :: "int \<Rightarrow> int \<Rightarrow> expr option" where
  "Y l m = (case those (Y_terms l m) of None \<Rightarrow> None | Some ts \<Rightarrow> Some (fold add_term ts []))"

text \<open>
  When the loops of \<open>Y\<close> add nothing, \<open>Y\<close> returns the Python integer \<open>0\<close> it started
  from, which has no method \<open>subs\<close>: \<open>p_Y\<close> raises.
\<close>

definition p_Y :: "int \<Rightarrow> int \<Rightarrow> nat \<Rightarrow> expr list option" where
  "p_Y l m lmax =
     (case Y l m of
        None \<Rightarrow> None
      | Some ylm \<Rightarrow>
          if Y_terms l m = [] then None
          else Some (subs_all_zero ylm # map (\<lambda>n. Coefficient ylm (poly_basis n)) [1..<(lmax + 1) ^ 2]))"

section \<open>The change of basis matrix\<close>

text \<open>A matrix is the list of its rows.\<close>

type_synonym 'a matrix = "'a list list"

definition zeros :: "nat \<Rightarrow> nat \<Rightarrow> expr matrix" where
  "zeros r c = replicate r (replicate c [])"

text \<open>
  \<open>res[n] = v\<close> with an integer key and a list value.  The key is an index into the
  flattened matrix, \<open>(i, j) = divmod(n, cols)\<close>; the list becomes a column vector and is
  copied into the matrix with its top at \<open>(i, j)\<close>.  A key or a vector that does not fit
  is an error.
\<close>

definition setitem :: "expr matrix \<Rightarrow> nat \<Rightarrow> expr list \<Rightarrow> expr matrix option" where
  "setitem res n v =
     (let rows = length res;
          cols = (case res of [] \<Rightarrow> 0 | r # _ \<Rightarrow> length r);
          i = n div cols;
          j = n mod cols
      in if n < rows * cols \<and> i + length v \<le> rows
         then Some (map (\<lambda>r. if i \<le> r \<and> r < i + length v
                              then (res ! r)[j := v ! (r - i)] else res ! r) [0..<rows])
         else None)"

text \<open>The pairs \<open>(l, m)\<close> of the two nested loops of \<open>A1\<close>, in order.\<close>

definition lm_pairs :: "nat \<Rightarrow> (int \<times> int) list" where
  "lm_pairs lmax = [(l, m). l \<leftarrow> [0..int lmax], m \<leftarrow> [- l..l]]"

fun A1_loop :: "(int \<times> int) list \<Rightarrow> nat \<Rightarrow> nat \<Rightarrow> expr matrix \<Rightarrow> expr matrix option" where
  "A1_loop [] lmax n res = Some res"
| "A1_loop ((l, m) # ps) lmax n res =
     (case p_Y l m lmax of
        None \<Rightarrow> None
      | Some v \<Rightarrow>
          (case setitem res n v of
             None \<Rightarrow> None
           | Some res' \<Rightarrow> A1_loop ps lmax (n + 1) res'))"

text \<open>\<open>e * norm\<close> for one entry.\<close>

definition scale :: "real \<Rightarrow> expr \<Rightarrow> expr" where
  "scale c e = (if c = 0 then [] else map (\<lambda>a. (fst a * c, snd a)) e)"

definition A1 :: "nat \<Rightarrow> real \<Rightarrow> expr matrix option" where
  "A1 lmax nrm =
     (case A1_loop (lm_pairs lmax) lmax 0 (zeros ((lmax + 1) ^ 2) ((lmax + 1) ^ 2)) of
        None \<Rightarrow> None
      | Some res \<Rightarrow> Some (map (map (scale nrm)) res))"

definition default_norm :: real where
  "default_norm = 2 / sqrt pi"

section \<open>Matrix algebra on the constants\<close>

text \<open>
  The entries of \<open>A1\<close> are constants; the inverse and the products of the notebook are
  taken on the numbers they denote.
\<close>

definition numeric :: "expr matrix \<Rightarrow> real matrix" where
  "numeric M = map (map const_val) M"

definition dot :: "real list \<Rightarrow> real list \<Rightarrow> real" where
  "dot u v = sum_list (map2 (*) u v)"

definition mat_vec :: "real matrix \<Rightarrow> real list \<Rightarrow> real list" where
  "mat_vec M v = map (\<lambda>r. dot r v) M"

definition column :: "'a matrix \<Rightarrow> nat \<Rightarrow> 'a list" where
  "column M j = map (\<lambda>r. r ! j) M"

definition mat_mul :: "nat \<Rightarrow> real matrix \<Rightarrow> real matrix \<Rightarrow> real matrix" where
  "mat_mul n A B = map (\<lambda>r. map (\<lambda>j. dot r (column B j)) [0..<n]) A"

definition unit_vec :: "nat \<Rightarrow> nat \<Rightarrow> real list" where
  "unit_vec n i = map (\<lambda>j. if j = i then 1 else 0) [0..<n]"

definition identity :: "nat \<Rightarrow> real matrix" where
  "identity n = map (unit_vec n) [0..<n]"

definition square :: "nat \<Rightarrow> 'a matrix \<Rightarrow> bool" where
  "square n M = (length M = n \<and> list_all (\<lambda>r. length r = n) M)"

text \<open>\<open>M\<close> is the inverse of the \<open>n \<times> n\<close> matrix \<open>A\<close>.\<close>

definition is_inverse :: "nat \<Rightarrow> real matrix \<Rightarrow> real matrix \<Rightarrow> bool" where
  "is_inverse n A M =
     (square n A \<and> square n M \<and> mat_mul n A M = identity n \<and> mat_mul n M A = identity n)"

text \<open>
  The matrix \<open>A1(2)\<close> as numbers, and the inverse the notebook displays for it.  Rows are
  indexed by the polynomial basis \<open>1, x, z, y, x\<^sup>2, xz, xy, yz, y\<^sup>2\<close>, columns by the harmonics
  \<open>(0,0), (1,-1), (1,0), (1,1), (2,-2), (2,-1), (2,0), (2,1), (2,2)\<close>.
\<close>

definition A1_lmax2 :: "real matrix" where
  "A1_lmax2 =
   [[1 / pi, 0, 0, 0, 0, 0, sqrt 5 / pi, 0, 0],
    [0, 0, 0, sqrt 3 / pi, 0, 0, 0, 0, 0],
    [0, 0, sqrt 3 / pi, 0, 0, 0, 0, 0, 0],
    [0, sqrt 3 / pi, 0, 0, 0, 0, 0, 0, 0],
    [0, 0, 0, 0, 0, 0, - (3 * sqrt 5 / (2 * pi)), 0, sqrt 15 / (2 * pi)],
    [0, 0, 0, 0, 0, 0, 0, sqrt 15 / pi, 0],
    [0, 0, 0, 0, sqrt 15 / pi, 0, 0, 0, 0],
    [0, 0, 0, 0, 0, sqrt 15 / pi, 0, 0, 0],
    [0, 0, 0, 0, 0, 0, - (3 * sqrt 5 / (2 * pi)), 0, - (sqrt 15 / (2 * pi))]]"

definition M_lmax2 :: "real matrix" where
  "M_lmax2 =
   [[pi, 0, 0, 0, pi / 3, 0, 0, 0, pi / 3],
    [0, 0, 0, sqrt 3 * pi / 3, 0, 0, 0, 0, 0],
    [0, 0, sqrt 3 * pi / 3, 0, 0, 0, 0, 0, 0],
    [0, sqrt 3 * pi / 3, 0, 0, 0, 0, 0, 0, 0],
    [0, 0, 0, 0, 0, 0, sqrt 15 * pi / 15, 0, 0],
    [0, 0, 0, 0, 0, 0, 0, sqrt 15 * pi / 15, 0],
    [0, 0, 0, 0, - (sqrt 5 * pi / 15), 0, 0, 0, - (sqrt 5 * pi / 15)],
    [0, 0, 0, 0, 0, sqrt 15 * pi / 15, 0, 0, 0],
    [0, 0, 0, 0, sqrt 15 * pi / 15, 0, 0, 0, - (sqrt 15 * pi / 15)]]"

text \<open>
  The factorial arguments the specification calls invalid: \<open>n / 2\<close> is negative or is not
  an integer.
\<close>

definition invalid_factorial_arg :: "int \<Rightarrow> bool" where
  "invalid_factorial_arg n = (n < 0 \<or> odd n)"

section \<open>Index sets for the invertibility of the matrix\<close>

text \<open>
  A matrix indexed by two finite sets is a function of two arguments; \<open>b\<close> is a two-sided
  inverse of \<open>a\<close> on the rows \<open>I\<close> and the columns \<open>J\<close>.
\<close>

definition inverse_on :: "'i set \<Rightarrow> 'j set \<Rightarrow> ('i \<Rightarrow> 'j \<Rightarrow> real) \<Rightarrow> ('j \<Rightarrow> 'i \<Rightarrow> real) \<Rightarrow> bool" where
  "inverse_on I J a b \<longleftrightarrow>
     (\<forall>i\<in>I. \<forall>i'\<in>I. (\<Sum>j\<in>J. a i j * b j i') = (if i = i' then 1 else 0)) \<and>
     (\<forall>j\<in>J. \<forall>j'\<in>J. (\<Sum>i\<in>I. b j i * a i j') = (if j = j' then 1 else 0))"

text \<open>
  The contribution of one addend of \<open>Y\<close> to the coefficient of the monomial \<open>t\<close>, and the
  sum of these contributions over the three inner loops of \<open>Y\<close>, for one value \<open>j\<close> of the
  outer loop and one branch \<open>ez\<close> of the power of \<open>z\<close>.
\<close>

definition weight :: "monomial \<Rightarrow> (real \<times> monomial) option \<Rightarrow> real" where
  "weight t x = (if snd (the x) = t then fst (the x) else 0)"

definition loop_sum :: "monomial \<Rightarrow> int \<Rightarrow> int \<Rightarrow> int \<Rightarrow> int \<Rightarrow> int \<Rightarrow> real" where
  "loop_sum t l mu oi ez j =
     (\<Sum>k\<in>set (range2 ez (l - mu + 1)). \<Sum>p\<in>set (range2 0 (k + 1 - ez)). \<Sum>q\<in>set (range2 0 (p + 1)).
        weight t (Y_term (j + p - oi) l mu j k p q (k - ez) (nat ez)))"

text \<open>
  The factor that all the coefficients of degree \<open>l\<close> of \<open>Y(l, \<plusminus>mu)\<close> share: the
  normalisation \<open>SA\<close>, the weight \<open>SB\<close> at \<open>k = l - mu\<close> and the sign of \<open>SC\<close> there.
\<close>

definition top_factor :: "int \<Rightarrow> int \<Rightarrow> real" where
  "top_factor l mu =
     (- 1) ^ nat ((l - mu) div 2) * the (SA l mu)
       * (2 ^ nat l * the (ratio l mu (l - mu)) / fact (nat (l - mu)))"

text \<open>
  The monomials of degree \<open>L\<close> and the harmonics of degree \<open>L\<close>; the monomials of degree
  below \<open>L\<close> and the harmonics of degree below \<open>L\<close>; the coefficient of a monomial in a
  harmonic.  A monomial and a harmonic are in the same class when the parity of the power
  of \<open>y\<close> is the sign of \<open>m\<close> and the power of \<open>z\<close> is the parity of \<open>l - |m|\<close>.
\<close>

definition Deg :: "nat \<Rightarrow> monomial set" where
  "Deg L = {(a, b, e). e \<le> 1 \<and> a + b + e = L}"

definition Col :: "nat \<Rightarrow> (int \<times> int) set" where
  "Col L = {(l, m). l = int L \<and> \<bar>m\<bar> \<le> l}"

definition Mono :: "nat \<Rightarrow> monomial set" where
  "Mono L = {(a, b, e). e \<le> 1 \<and> a + b + e < L}"

definition Pairs :: "nat \<Rightarrow> (int \<times> int) set" where
  "Pairs L = {(l, m). 0 \<le> l \<and> l < int L \<and> \<bar>m\<bar> \<le> l}"

definition cf :: "monomial \<Rightarrow> int \<times> int \<Rightarrow> real" where
  "cf t p = coeff_of (map the (Y_terms (fst p) (snd p))) t"

definition row_class :: "monomial \<Rightarrow> nat \<times> nat" where
  "row_class t = (fst (snd t) mod 2, snd (snd t))"

definition col_class :: "int \<times> int \<Rightarrow> nat \<times> nat" where
  "col_class p = (if snd p < 0 then 1 else 0, nat ((fst p - \<bar>snd p\<bar>) mod 2))"

section \<open>Properties\<close>

subsection \<open>Integer square roots\<close>

lemma floor_sqrt_bounds:
  "\<lfloor>sqrt (real n)\<rfloor> * \<lfloor>sqrt (real n)\<rfloor> \<le> int n \<and> int n < (\<lfloor>sqrt (real n)\<rfloor> + 1) * (\<lfloor>sqrt (real n)\<rfloor> + 1)"
proof -
  define l where "l = \<lfloor>sqrt (real n)\<rfloor>"
  have l0: "0 \<le> l" by (simp add: l_def)
  have lo: "real_of_int l \<le> sqrt (real n)" by (simp add: l_def)
  have hi: "sqrt (real n) < real_of_int l + 1" by (simp add: l_def)
  have "real_of_int l * real_of_int l \<le> sqrt (real n) * sqrt (real n)"
    using lo l0 by (intro mult_mono) auto
  then have a: "real_of_int (l * l) \<le> real n" by simp
  have "sqrt (real n) * sqrt (real n) < (real_of_int l + 1) * (real_of_int l + 1)"
    using hi l0 by (intro mult_strict_mono) auto
  then have b: "real n < real_of_int ((l + 1) * (l + 1))" by simp
  from a have "l * l \<le> int n" by linarith
  moreover from b have "int n < (l + 1) * (l + 1)" by linarith
  ultimately show ?thesis by (simp add: l_def)
qed

lemma floor_sqrt_eq: "0 \<le> k \<Longrightarrow> of_int k * of_int k \<le> x \<Longrightarrow> x < (of_int k + 1) * (of_int k + 1) \<Longrightarrow> \<lfloor>sqrt x\<rfloor> = k"
proof -
  assume a: "0 \<le> k" "of_int k * of_int k \<le> x" "x < (of_int k + 1) * (of_int k + 1)"
  have "sqrt (of_int k * of_int k) \<le> sqrt x" using a(2) by (simp only: real_sqrt_le_iff)
  then have lo: "of_int k \<le> sqrt x" using a(1) by simp
  have "sqrt x < sqrt ((of_int k + 1) * (of_int k + 1))" using a(3) by (simp only: real_sqrt_less_iff)
  then have hi: "sqrt x < of_int k + 1" using a(1) by simp
  show ?thesis using lo hi by (simp add: floor_eq_iff)
qed

lemma poly_basis_range:
  fixes l :: int
  assumes "0 \<le> l" "l * l \<le> n" "n < (l + 1) * (l + 1)"
  shows "0 \<le> l - (n - l * l - l)" "0 \<le> l + (n - l * l - l)"
  using assms by (auto simp: algebra_simps)

text \<open>Every index is the index of the monomial \<open>poly_basis\<close> gives for it.\<close>

lemma poly_basis_decomp:
  obtains a b e where "poly_basis n = (a, b, e)" "e \<le> 1" "n = (a + b + e) * (a + b + e) + 2 * b + e"
proof -
  define l where "l = \<lfloor>sqrt (real n)\<rfloor>"
  define nu where "nu = int n - l * l"
  define mu where "mu = 2 * l - nu"
  have l0: "0 \<le> l" by (simp add: l_def)
  have b: "l * l \<le> int n" "int n < (l + 1) * (l + 1)"
    using floor_sqrt_bounds[of n] by (simp_all add: l_def)
  have nu0: "0 \<le> nu" using b(1) by (simp add: nu_def)
  have mu0: "0 \<le> mu" using b(2) by (simp add: mu_def nu_def algebra_simps)
  have pb: "poly_basis n = (if nu mod 2 = 0 then (nat (mu div 2), nat (nu div 2), 0)
         else (nat ((mu - 1) div 2), nat ((nu - 1) div 2), 1))"
    unfolding poly_basis_def Let_def l_def[symmetric] mu_def nu_def
    by (simp add: algebra_simps)
  have n: "int n = l * l + nu" by (simp add: nu_def)
  show ?thesis
  proof (cases "nu mod 2 = 0")
    case True
    define a where "a = nat (mu div 2)"
    define c where "c = nat (nu div 2)"
    have "2 * (nu div 2) = nu" using True by presburger
    moreover have "2 * (mu div 2) = mu" using True unfolding mu_def by presburger
    moreover have "int a = mu div 2" "int c = nu div 2" using mu0 nu0 by (simp_all add: a_def c_def)
    ultimately have "int a + int c = l" "2 * int c = nu" unfolding mu_def by linarith+
    then have "int n = int ((a + c + 0) * (a + c + 0) + 2 * c + 0)" using n by simp
    then have "n = (a + c + 0) * (a + c + 0) + 2 * c + 0" by (simp only: of_nat_eq_iff)
    moreover have "poly_basis n = (a, c, 0)" using True by (simp add: pb a_def c_def)
    ultimately show ?thesis using that[of a c 0] by simp
  next
    case False
    define a where "a = nat ((mu - 1) div 2)"
    define c where "c = nat ((nu - 1) div 2)"
    have "2 * ((nu - 1) div 2) + 1 = nu" using False by presburger
    moreover have "2 * ((mu - 1) div 2) + 1 = mu" using False unfolding mu_def by presburger
    moreover have "0 \<le> (mu - 1) div 2" "0 \<le> (nu - 1) div 2" using calculation mu0 nu0 by linarith+
    then have "int a = (mu - 1) div 2" "int c = (nu - 1) div 2" by (simp_all add: a_def c_def)
    ultimately have lv: "l = int a + int c + 1" "nu = 2 * int c + 1" unfolding mu_def by linarith+
    have "int n = int ((a + c + 1) * (a + c + 1) + 2 * c + 1)" unfolding n lv by (simp add: algebra_simps)
    then have "n = (a + c + 1) * (a + c + 1) + 2 * c + 1" by (simp only: of_nat_eq_iff)
    moreover have "poly_basis n = (a, c, 1)" using False by (simp add: pb a_def c_def)
    ultimately show ?thesis using that[of a c 1] by simp
  qed
qed

subsection \<open>Sums of addends\<close>

lemma coeff_of_Nil: "coeff_of [] t = 0" by (simp add: coeff_of_def)

lemma coeff_of_Cons: "coeff_of (a # e) t = (if snd a = t then fst a else 0) + coeff_of e t"
  by (simp add: coeff_of_def)

lemma coeff_of_add_term: "coeff_of (add_term a e) t = coeff_of e t + (if snd a = t then fst a else 0)"
proof (induction e)
  case Nil
  show ?case by (cases a) (simp add: coeff_of_def)
next
  case (Cons b e)
  obtain c m where a: "a = (c, m)" by (cases a)
  obtain c' m' where b: "b = (c', m')" by (cases b)
  show ?case using Cons by (auto simp: a b coeff_of_Cons)
qed

lemma coeff_of_fold_add_term: "coeff_of (fold add_term ts e) t = coeff_of e t + coeff_of ts t"
  by (induction ts arbitrary: e) (simp_all add: coeff_of_Nil coeff_of_Cons coeff_of_add_term)

lemma is_const_subs_all_zero: "is_const (subs_all_zero e)"
proof -
  have "\<And>a. a \<in> set (subs_all_zero e) \<Longrightarrow> snd a = (0, 0, 0)"
  proof -
    fix a assume "a \<in> set (subs_all_zero e)"
    then have "exponent VarX (snd a) = 0" "exponent VarY (snd a) = 0" "exponent VarZ (snd a) = 0"
      by (simp_all add: subs_all_zero_def subs_zero_def)
    then show "snd a = (0, 0, 0)" by (cases a) auto
  qed
  then show ?thesis by (simp add: is_const_def list_all_iff)
qed

lemma subs_all_zero_filter: "subs_all_zero e = filter (\<lambda>a. snd a = (0, 0, 0)) e"
proof -
  have "\<And>a::real \<times> monomial. (exponent VarY (snd a) = 0 \<and> exponent VarX (snd a) = 0 \<and> exponent VarZ (snd a) = 0) = (snd a = (0, 0, 0))"
  proof -
    fix a :: "real \<times> monomial" 
    obtain c x y z where "a = (c, x, y, z)" by (cases a) 
    then show "(exponent VarY (snd a) = 0 \<and> exponent VarX (snd a) = 0 \<and> exponent VarZ (snd a) = 0) = (snd a = (0, 0, 0))" by auto
  qed
  then show ?thesis by (simp add: subs_all_zero_def subs_zero_def conj_commute conj_left_commute)
qed

lemma const_val_subs_all_zero: "const_val (subs_all_zero e) = coeff_of e (0, 0, 0)"
  by (simp add: subs_all_zero_filter const_val_def coeff_of_def)

lemma factors_mem: "(v, a) \<in> set (factors m) \<longleftrightarrow> 0 < a \<and> exponent v m = a"
  by (cases v) (auto simp: factors_def)

lemma has_factors_iff: "has_factors t m \<longleftrightarrow> (\<forall>v. exponent v t = 0 \<or> exponent v m = exponent v t)"
proof
  assume h: "has_factors t m"
  show "\<forall>v. exponent v t = 0 \<or> exponent v m = exponent v t"
  proof
    fix v
    show "exponent v t = 0 \<or> exponent v m = exponent v t"
    proof (cases "exponent v t = 0")
      case False
      then have "(v, exponent v t) \<in> set (factors t)" by (simp add: factors_mem)
      then have "(v, exponent v t) \<in> set (factors m)"
        using h by (simp add: has_factors_def list_all_iff)
      then show ?thesis by (simp add: factors_mem)
    qed simp
  qed
next
  assume h: "\<forall>v. exponent v t = 0 \<or> exponent v m = exponent v t"
  have "f \<in> set (factors m)" if "f \<in> set (factors t)" for f
  proof -
    obtain v a where f: "f = (v, a)" by (cases f)
    from that have a: "0 < a" "exponent v t = a" by (simp_all add: f factors_mem)
    with h have "exponent v m = a" by (metis less_numeral_extra(3))
    with a show ?thesis by (simp add: f factors_mem)
  qed
  then show "has_factors t m" by (simp add: has_factors_def list_all_iff)
qed

lemma power_in_filter_factors:
  "power_in (filter P (factors m)) v = (if P (v, exponent v m) \<and> 0 < exponent v m then exponent v m else 0)"
  by (cases v; cases m) (auto simp: power_in_def factors_def)

lemma exponent_residual:
  "exponent v (residual t m) = (if exponent v m = 0 \<or> exponent v t = exponent v m then 0 else exponent v m)"
  by (cases v) (auto simp: residual_def Let_def power_in_filter_factors factors_mem)

lemma mono_eq_iff: "m = m' \<longleftrightarrow> (\<forall>v. exponent v m = exponent v m')"
proof
  assume "\<forall>v. exponent v m = exponent v m'"
  then have "exponent VarX m = exponent VarX m'" "exponent VarY m = exponent VarY m'" "exponent VarZ m = exponent VarZ m'"
    by blast+
  then show "m = m'" by (cases m; cases m') simp
qed simp

lemma exact_match: "has_factors t m \<and> residual t m = (0, 0, 0) \<longleftrightarrow> m = t"
proof -
  have z: "\<And>v. exponent v (0, 0, 0) = 0" by (case_tac v) simp_all
  show ?thesis
    unfolding has_factors_iff mono_eq_iff[of "residual t m"] mono_eq_iff[of m t] exponent_residual z
    by metis
qed

lemma factors_Nil_iff: "factors t = [] \<longleftrightarrow> t = (0, 0, 0)"
  by (cases t) (auto simp: factors_def)

lemma coeff_of_coeff_zero:
  assumes "factors t \<noteq> []"
  shows "coeff_of (coeff e t) (0, 0, 0) = coeff_of e t"
proof -
  have "coeff_of (coeff e t) (0, 0, 0)
      = coeff_of (map (\<lambda>a. (fst a, residual t (snd a))) (filter (\<lambda>a. has_factors t (snd a)) e)) (0, 0, 0)"
    using assms by (simp add: coeff_def coeff_of_fold_add_term coeff_of_Nil)
  also have "\<dots> = coeff_of e t"
  proof (induction e)
    case Nil show ?case by (simp add: coeff_of_def)
  next
    case (Cons a e)
    show ?case using Cons exact_match[of t "snd a"] by (auto simp: coeff_of_Cons)
  qed
  finally show ?thesis .
qed

lemma poly_basis_factors: "0 < n \<Longrightarrow> factors (poly_basis n) \<noteq> []"
proof
  assume n: "0 < n" and "factors (poly_basis n) = []"
  then have z: "poly_basis n = (0, 0, 0)" by (simp add: factors_Nil_iff)
  obtain a b e where "poly_basis n = (a, b, e)" "n = (a + b + e) * (a + b + e) + 2 * b + e"
    by (rule poly_basis_decomp)
  then show False using z n by simp
qed

subsection \<open>The harmonics never fail\<close>

lemma range2_mem: "x \<in> set (range2 a b) \<longleftrightarrow> a \<le> x \<and> x < b \<and> even (x - a)"
proof
  assume "x \<in> set (range2 a b)"
  then obtain i where i: "i < nat ((b - a + 1) div 2)" "x = a + 2 * int i"
    by (auto simp: range2_def)
  then have "int i < (b - a + 1) div 2" by linarith
  then have "2 * int i + 2 \<le> b - a + 1" by linarith
  with i show "a \<le> x \<and> x < b \<and> even (x - a)" by simp
next
  assume h: "a \<le> x \<and> x < b \<and> even (x - a)"
  then have "even (x - a)" by blast
  then obtain d where d: "x - a = 2 * d" by (rule evenE)
  with h have d0: "0 \<le> d" by linarith
  have "d < (b - a + 1) div 2" using h d by linarith
  then have "nat d < nat ((b - a + 1) div 2)" using d0 by linarith
  moreover have "x = a + 2 * int (nat d)" using d d0 by simp
  ultimately have "nat d \<in> set [0..<nat ((b - a + 1) div 2)] \<and> x = (\<lambda>i. a + 2 * int i) (nat d)"
    by simp
  then have "x \<in> (\<lambda>i. a + 2 * int i) ` set [0..<nat ((b - a + 1) div 2)]" by blast
  then show "x \<in> set (range2 a b)" unfolding range2_def by (simp only: set_map)
qed

lemma gamma_half_nonzero: "gamma_half k \<noteq> 0"
proof -
  have "(\<Prod>i<n. (real i + 1 / 2)) \<noteq> 0" for n by simp
  moreover have "(\<Prod>i<n. (- real i - 1 / 2)) \<noteq> 0" for n by simp
  ultimately show ?thesis by (simp add: gamma_half_def)
qed

lemma factorial_half_even: "even n \<Longrightarrow> 0 \<le> n \<Longrightarrow> factorial_half n = Some (fact (nat (n div 2)))"
  by (simp add: factorial_half_def factorial_def)

lemma SA_Some: "0 \<le> m \<Longrightarrow> m \<le> l \<Longrightarrow> 
   SA l m = Some (sqrt ((2 - KroneckerDelta m 0) * (2 * real_of_int l + 1) * fact (nat (l - m)) / (4 * pi * fact (nat (l + m)))))"
  by (simp add: SA_def factorial_def)

lemma ratio_Some: "0 \<le> m \<Longrightarrow> 0 \<le> k \<Longrightarrow> m + k \<le> l \<Longrightarrow> \<exists>r. ratio l m k = Some r"
proof -
  assume a: "0 \<le> m" "0 \<le> k" "m + k \<le> l"
  have "\<exists>v. factorial_half (l + m + k - 1) = Some v"
  proof (cases "even (l + m + k - 1)")
    case True
    then have "l + m + k - 1 \<noteq> -1" by presburger
    with a have "0 \<le> l + m + k - 1" by linarith
    then have "0 \<le> (l + m + k - 1) div 2" by simp
    with True show ?thesis by (simp add: factorial_half_def factorial_def)
  next
    case False then show ?thesis by (simp add: factorial_half_def)
  qed
  then show ?thesis by (auto simp: ratio_def split: option.splits)
qed

lemma SB_Some: "0 \<le> j \<Longrightarrow> j \<le> m \<Longrightarrow> 0 \<le> k \<Longrightarrow> m + k \<le> l \<Longrightarrow> \<exists>b. SB l m j k = Some b"
proof -
  assume a: "0 \<le> j" "j \<le> m" "0 \<le> k" "m + k \<le> l"
  then obtain r where "ratio l m k = Some r" using ratio_Some[of m k l] by auto
  with a show ?thesis by (simp add: SB_def factorial_def)
qed

lemma SC_Some: "even kc \<Longrightarrow> 0 \<le> kc \<Longrightarrow> \<exists>c. SC p q kc = Some c"
  by (auto simp: SC_def factorial_half_even split: option.splits)

lemma Y_term_Some:
  assumes "0 \<le> j" "j \<le> m" "0 \<le> k" "m + k \<le> l" "even kc" "0 \<le> kc"
  shows "\<exists>a. Y_term s l m j k p q kc ez = Some a"
proof -
  obtain b where b: "SB l m j k = Some b" using SB_Some[OF assms(1-4)] by auto
  obtain c where c: "SC p q kc = Some c" using SC_Some[OF assms(5,6)] by auto
  have "0 \<le> m" "m \<le> l" using assms by linarith+
  then obtain a where a: "SA l m = Some a" using SA_Some by blast
  show ?thesis by (simp add: Y_term_def a b c)
qed

lemma Y_terms_Some: "t \<in> set (Y_terms l m) \<Longrightarrow> \<exists>a. t = Some a"
proof -
  assume t: "t \<in> set (Y_terms l m)"
  show ?thesis
  proof (cases "m \<ge> 0")
    case True
    with t obtain s j k p q kc ez where
      "t = Y_term s l m j k p q kc ez" "0 \<le> j" "j \<le> m" "0 \<le> k" "m + k \<le> l" "even kc" "0 \<le> kc"
      unfolding Y_terms_def by (auto simp: range2_mem) 
    then show ?thesis using Y_term_Some by blast
  next
    case False
    with t obtain s j k p q kc ez where
      "t = Y_term s l \<bar>m\<bar> j k p q kc ez" "0 \<le> j" "j \<le> \<bar>m\<bar>" "0 \<le> k" "\<bar>m\<bar> + k \<le> l" "even kc" "0 \<le> kc"
      unfolding Y_terms_def by (auto simp: range2_mem) 
    then show ?thesis using Y_term_Some by blast
  qed
qed

lemma those_map_the: "(\<And>x. x \<in> set xs \<Longrightarrow> \<exists>a. x = Some a) \<Longrightarrow> those xs = Some (map the xs)"
proof (induction xs)
  case Nil show ?case by simp
next
  case (Cons x xs)
  obtain a where a: "x = Some a" using Cons.prems[of x] by auto
  have "those xs = Some (map the xs)" using Cons by simp
  then show ?case by (simp add: a)
qed

lemma Y_total: "Y l m = Some (fold add_term (map the (Y_terms l m)) [])"
  using those_map_the[of "Y_terms l m"] Y_terms_Some by (simp add: Y_def)

subsection \<open>Filling the matrix\<close>

lemma square_nth: "square n M \<Longrightarrow> r < n \<Longrightarrow> length (M ! r) = n"
  by (simp add: square_def list_all_length)

lemma setitem_column:
  assumes sq: "square N res" and n: "n < N" and v: "length v = N"
  shows "setitem res n v = Some (map (\<lambda>r. (res ! r)[n := v ! r]) [0..<N])"
proof -
  have len: "length res = N" using sq by (simp add: square_def)
  have N0: "0 < N" using n by simp
  then obtain r0 rs where res: "res = r0 # rs" using len by (cases res) auto
  have "length r0 = N" using square_nth[OF sq N0] by (simp add: res)
  then have cols: "(case res of [] \<Rightarrow> 0 | r # _ \<Rightarrow> length r) = N" by (simp add: res)
  have "N * 1 \<le> N * N" using N0 by (intro mult_le_mono2) simp
  then have lt: "n < N * N" using n by linarith
  show ?thesis
    unfolding setitem_def cols len Let_def using n v lt by simp
qed

lemma setitem_square:
  assumes sq: "square N res" and n: "n < N" and v: "length v = N"
  shows "square N (map (\<lambda>r. (res ! r)[n := v ! r]) [0..<N])"
  using sq by (simp add: square_def list_all_length)

lemma Y_terms_nonempty: "\<bar>m\<bar> \<le> l \<Longrightarrow> Y_terms l m \<noteq> []"
proof -
  assume v: "\<bar>m\<bar> \<le> l"
  have z: "0 \<in> set (range2 0 1)" by (simp add: range2_mem)
  show ?thesis
  proof (cases "m \<ge> 0")
    case True
    have "0 \<in> set (range2 0 (m + 1))" "0 \<in> set (range2 0 (l - m + 1))"
      using True v by (simp_all add: range2_mem)
    then have "Y_term (0 + 0) l m 0 0 0 0 0 0 \<in> set (Y_terms l m)"
      using True z unfolding Y_terms_def by (simp del: upt_Suc) force
    then show ?thesis by auto
  next
    case False
    have "1 \<in> set (range2 1 (\<bar>m\<bar> + 1))" "0 \<in> set (range2 0 (l - \<bar>m\<bar> + 1))"
      using False v by (simp_all add: range2_mem)
    then have "Y_term (1 + 0 - 1) l \<bar>m\<bar> 1 0 0 0 0 0 \<in> set (Y_terms l m)"
      using False z unfolding Y_terms_def by (simp del: upt_Suc) force
    then show ?thesis by auto
  qed
qed

lemma p_Y_Some:
  "\<bar>m\<bar> \<le> l \<Longrightarrow> p_Y l m lmax = Some (subs_all_zero (fold add_term (map the (Y_terms l m)) [])
      # map (\<lambda>n. Coefficient (fold add_term (map the (Y_terms l m)) []) (poly_basis n)) [1..<(lmax + 1) ^ 2])"
  by (simp add: p_Y_def Y_total Y_terms_nonempty)

lemma p_Y_length: "p_Y l m lmax = Some v \<Longrightarrow> length v = (lmax + 1) ^ 2"
proof -
  assume "p_Y l m lmax = Some v"
  then have "length v = Suc ((lmax + 1) ^ 2 - 1)"
    by (auto simp: p_Y_def Y_total split: if_splits)
  moreover have "0 < (lmax + 1) ^ 2" by simp
  ultimately show ?thesis by linarith
qed

lemma A1_loop_columns:
  assumes "square N res" "n + length ps \<le> N" "N = (lmax + 1) ^ 2"
    and "\<forall>a\<in>set ps. \<bar>snd a\<bar> \<le> fst a"
  shows "\<exists>res'. A1_loop ps lmax n res = Some res' \<and> square N res' \<and>
           (\<forall>r<N. \<forall>c<N. res' ! r ! c =
               (if n \<le> c \<and> c < n + length ps
                then the (p_Y (fst (ps ! (c - n))) (snd (ps ! (c - n))) lmax) ! r
                else res ! r ! c))"
  using assms
proof (induction ps arbitrary: n res)
  case Nil
  then show ?case by auto
next
  case (Cons a ps)
  obtain l m where a: "a = (l, m)" by (cases a)
  have "\<bar>m\<bar> \<le> l" using Cons.prems(4) by (simp add: a)
  then obtain v where v: "p_Y l m lmax = Some v" by (simp add: p_Y_Some)
  have valid: "\<forall>a\<in>set ps. \<bar>snd a\<bar> \<le> fst a" using Cons.prems(4) by simp
  have lv: "length v = N" using p_Y_length[OF v] Cons.prems(3) by simp
  have n: "n < N" using Cons.prems(2) by simp
  define res1 where "res1 = map (\<lambda>r. (res ! r)[n := v ! r]) [0..<N]"
  have s1: "setitem res n v = Some res1"
    using setitem_column[OF Cons.prems(1) n lv] by (simp add: res1_def)
  have sq1: "square N res1"
    using setitem_square[OF Cons.prems(1) n lv] by (simp add: res1_def)
  have "Suc n + length ps \<le> N" using Cons.prems(2) by simp
  from Cons.IH[OF sq1 this Cons.prems(3) valid]
  obtain res' where r': "A1_loop ps lmax (Suc n) res1 = Some res'" "square N res'"
    "\<forall>r<N. \<forall>c<N. res' ! r ! c =
               (if Suc n \<le> c \<and> c < Suc n + length ps
                then the (p_Y (fst (ps ! (c - Suc n))) (snd (ps ! (c - Suc n))) lmax) ! r
                else res1 ! r ! c)" by blast
  have loop: "A1_loop (a # ps) lmax n res = Some res'"
    by (simp add: a v s1 r'(1))
  have ent: "res' ! r ! c =
               (if n \<le> c \<and> c < n + length (a # ps)
                then the (p_Y (fst ((a # ps) ! (c - n))) (snd ((a # ps) ! (c - n))) lmax) ! r
                else res ! r ! c)" if rc: "r < N" "c < N" for r c
  proof -
    have lr: "length (res ! r) = N" using square_nth[OF Cons.prems(1) rc(1)] .
    have r1: "res1 ! r ! c = (if c = n then v ! r else res ! r ! c)"
      using rc lr by (simp add: res1_def nth_list_update)
    have e: "res' ! r ! c =
               (if Suc n \<le> c \<and> c < Suc n + length ps
                then the (p_Y (fst (ps ! (c - Suc n))) (snd (ps ! (c - Suc n))) lmax) ! r
                else res1 ! r ! c)" using r'(3) rc by blast
    show ?thesis
    proof (cases "c = n")
      case True
      then show ?thesis using e r1 by (simp add: a v)
    next
      case False
      show ?thesis
      proof (cases "Suc n \<le> c \<and> c < Suc n + length ps")
        case True
        then have "(a # ps) ! (c - n) = ps ! (c - Suc n)"
          by (metis Suc_diff_Suc Suc_le_lessD nth_Cons_Suc)
        then show ?thesis using e True by simp
      next
        case F2: False
        then have F3: "\<not> (n \<le> c \<and> c < n + length (a # ps))" using False by auto
        have "res' ! r ! c = res1 ! r ! c" by (subst e) (rule if_not_P[OF F2])
        also have "\<dots> = res ! r ! c" using r1 False by simp
        finally show ?thesis by (simp only: if_not_P[OF F3])
      qed
    qed
  qed
  show ?case using loop r'(2) ent by blast
qed

lemma lm_pairs_Suc:
  "lm_pairs (Suc n) = lm_pairs n @ map (\<lambda>m. (int n + 1, m)) [- (int n + 1)..int n + 1]"
proof -
  have "[0..int (Suc n)] = [0..int n] @ [int n + 1]"
    using upto_rec2[of 0 "int n + 1"] by (simp add: add.commute)
  then show ?thesis by (simp add: lm_pairs_def)
qed

lemma length_lm_pairs: "length (lm_pairs lmax) = (lmax + 1) ^ 2"
proof (induction lmax)
  case 0
  show ?case by (simp add: lm_pairs_def)
next
  case (Suc n)
  have "length (lm_pairs (Suc n)) = (n + 1) ^ 2 + nat (2 * int n + 3)"
    using Suc by (simp add: lm_pairs_Suc)
  also have "nat (2 * int n + 3) = 2 * n + 3" by linarith
  also have "(n + 1) ^ 2 + (2 * n + 3) = (Suc n + 1) ^ 2" by (simp add: power2_eq_square)
  finally show ?case .
qed

lemma zeros_square: "square n (zeros n n)"
  by (simp add: zeros_def square_def list_all_length)

lemma lm_pairs_valid: "a \<in> set (lm_pairs lmax) \<Longrightarrow> \<bar>snd a\<bar> \<le> fst a \<and> fst a \<le> int lmax"
  by (auto simp: lm_pairs_def)

lemma lm_pairs_nth_valid:
  "c < (lmax + 1) ^ 2 \<Longrightarrow> \<bar>snd (lm_pairs lmax ! c)\<bar> \<le> fst (lm_pairs lmax ! c)"
  using lm_pairs_valid[of "lm_pairs lmax ! c" lmax] by (simp add: length_lm_pairs)

lemma A1_entries:
  "\<exists>M. A1 lmax nrm = Some M \<and> square ((lmax + 1) ^ 2) M \<and>
       (\<forall>r<(lmax + 1) ^ 2. \<forall>c<(lmax + 1) ^ 2.
          M ! r ! c = scale nrm (the (p_Y (fst (lm_pairs lmax ! c)) (snd (lm_pairs lmax ! c)) lmax) ! r))"
proof -
  define N where "N = (lmax + 1) ^ 2"
  have "0 + length (lm_pairs lmax) \<le> N" by (simp add: N_def length_lm_pairs)
  have "\<forall>a\<in>set (lm_pairs lmax). \<bar>snd a\<bar> \<le> fst a" using lm_pairs_valid by blast
  from A1_loop_columns[OF zeros_square \<open>0 + length (lm_pairs lmax) \<le> N\<close> N_def this]
  obtain res where res: "A1_loop (lm_pairs lmax) lmax 0 (zeros N N) = Some res" "square N res"
    "\<forall>r<N. \<forall>c<N. res ! r ! c =
               (if 0 \<le> c \<and> c < 0 + length (lm_pairs lmax)
                then the (p_Y (fst (lm_pairs lmax ! (c - 0))) (snd (lm_pairs lmax ! (c - 0))) lmax) ! r
                else zeros N N ! r ! c)" by blast
  have A: "A1 lmax nrm = Some (map (map (scale nrm)) res)"
    using res(1) by (simp add: A1_def N_def)
  have sq: "square N (map (map (scale nrm)) res)"
    using res(2) by (simp add: square_def list_all_length)
  have ent: "map (map (scale nrm)) res ! r ! c
      = scale nrm (the (p_Y (fst (lm_pairs lmax ! c)) (snd (lm_pairs lmax ! c)) lmax) ! r)"
    if rc: "r < N" "c < N" for r c
  proof -
    have "length res = N" "length (res ! r) = N"
      using res(2) square_nth[OF res(2) rc(1)] by (simp_all add: square_def)
    then have "map (map (scale nrm)) res ! r ! c = scale nrm (res ! r ! c)" using rc by simp
    moreover have "res ! r ! c = the (p_Y (fst (lm_pairs lmax ! c)) (snd (lm_pairs lmax ! c)) lmax) ! r"
      using res(3) rc by (simp add: N_def length_lm_pairs)
    ultimately show ?thesis by simp
  qed
  show ?thesis using A sq ent unfolding N_def by blast
qed

lemma column_nth: "column M c = map (\<lambda>r. M ! r ! c) [0..<length M]"
  by (rule nth_equalityI) (simp_all add: column_def)

lemma const_val_scale: "const_val (scale c e) = c * const_val e"
proof (cases "c = 0")
  case True then show ?thesis by (simp add: scale_def const_val_def)
next
  case False
  have "sum_list (map fst (map (\<lambda>a. (fst a * c, snd a)) e)) = c * sum_list (map fst e)"
    by (induction e) (simp_all add: algebra_simps)
  then show ?thesis using False by (simp add: scale_def const_val_def)
qed

lemma p_Y_nth_value:
  assumes "p_Y l m lmax = Some v" "r < (lmax + 1) ^ 2"
  shows "const_val (v ! r) = coeff_of (map the (Y_terms l m)) (poly_basis r)"
proof -
  define E where "E = fold add_term (map the (Y_terms l m)) []"
  have v: "v = subs_all_zero E # map (\<lambda>n. Coefficient E (poly_basis n)) [1..<(lmax + 1) ^ 2]"
    using assms(1) by (auto simp: p_Y_def Y_total E_def split: if_splits)
  have E: "coeff_of E t = coeff_of (map the (Y_terms l m)) t" for t
    by (simp add: E_def coeff_of_fold_add_term coeff_of_Nil)
  show ?thesis
  proof (cases r)
    case 0
    have "poly_basis 0 = (0, 0, 0)" by (simp add: poly_basis_def)
    then show ?thesis by (simp add: 0 v const_val_subs_all_zero E)
  next
    case (Suc r')
    have "r' < length [1..<(lmax + 1) ^ 2]" using assms(2) Suc by simp
    then have "[1..<(lmax + 1) ^ 2] ! r' = 1 + r'" by (simp only: length_upt nth_upt)
    then have "v ! r = Coefficient E (poly_basis (1 + r'))" using assms(2) Suc by (simp add: v)
    moreover have "factors (poly_basis (1 + r')) \<noteq> []" by (rule poly_basis_factors) simp
    ultimately show ?thesis
      by (simp add: Suc Coefficient_def const_val_subs_all_zero coeff_of_coeff_zero E)
  qed
qed

lemma numeric_nth: "square N M \<Longrightarrow> numeric M = map (\<lambda>r. map (\<lambda>c. const_val (M ! r ! c)) [0..<N]) [0..<N]"
proof -
  assume sq: "square N M"
  then have l: "length M = N" by (simp add: square_def)
  show ?thesis
  proof (rule nth_equalityI)
    show "length (numeric M) = length (map (\<lambda>r. map (\<lambda>c. const_val (M ! r ! c)) [0..<N]) [0..<N])"
      by (simp add: numeric_def l)
  next
    fix r assume "r < length (numeric M)"
    then have r: "r < N" by (simp add: numeric_def l)
    have lr: "length (M ! r) = N" using square_nth[OF sq r] .
    have "map const_val (M ! r) = map (\<lambda>c. const_val (M ! r ! c)) [0..<N]"
      by (rule nth_equalityI) (simp_all add: lr)
    then show "numeric M ! r = map (\<lambda>r. map (\<lambda>c. const_val (M ! r ! c)) [0..<N]) [0..<N] ! r"
      using r by (simp add: numeric_def l)
  qed
qed

lemma A1_numeric:
  "\<exists>M. A1 lmax nrm = Some M \<and> square ((lmax + 1) ^ 2) M \<and>
     numeric M = map (\<lambda>r. map (\<lambda>c. nrm * coeff_of (map the (Y_terms (fst (lm_pairs lmax ! c)) (snd (lm_pairs lmax ! c)))) (poly_basis r))
                      [0..<(lmax + 1) ^ 2]) [0..<(lmax + 1) ^ 2]"
proof -
  define N where "N = (lmax + 1) ^ 2"
  obtain M where M: "A1 lmax nrm = Some M" "square N M"
     "\<forall>r<N. \<forall>c<N. M ! r ! c = scale nrm (the (p_Y (fst (lm_pairs lmax ! c)) (snd (lm_pairs lmax ! c)) lmax) ! r)"
    using A1_entries[of lmax nrm] unfolding N_def by blast
  have ent: "const_val (M ! r ! c) = nrm * coeff_of (map the (Y_terms (fst (lm_pairs lmax ! c)) (snd (lm_pairs lmax ! c)))) (poly_basis r)"
    if rN: "r < N" and cN: "c < N" for r c
  proof -
    obtain v where v: "p_Y (fst (lm_pairs lmax ! c)) (snd (lm_pairs lmax ! c)) lmax = Some v"
      using lm_pairs_nth_valid[of c lmax] cN by (simp add: p_Y_Some N_def)
    have "M ! r ! c = scale nrm (v ! r)" using M(3) rN cN by (simp add: v)
    then show ?thesis using p_Y_nth_value[OF v] rN by (simp add: const_val_scale N_def)
  qed
  have "numeric M = map (\<lambda>r. map (\<lambda>c. const_val (M ! r ! c)) [0..<N]) [0..<N]"
    using numeric_nth[OF M(2)] .
  also have "\<dots> = map (\<lambda>r. map (\<lambda>c. nrm * coeff_of (map the (Y_terms (fst (lm_pairs lmax ! c)) (snd (lm_pairs lmax ! c)))) (poly_basis r)) [0..<N]) [0..<N]"
    using ent by (intro map_cong refl) simp_all
  finally show ?thesis using M(1,2) unfolding N_def by blast
qed

subsection \<open>The matrix for degree two\<close>

lemma range2_values:
  "range2 0 1 = [0]" "range2 0 2 = [0]" "range2 0 3 = [0,2]" "range2 1 1 = []"
  "range2 1 2 = [1]" "range2 1 3 = [1]" "range2 0 0 = []" "range2 1 0 = []"
  by code_simp+

lemma gamma_half_values:
  "gamma_half 0 = sqrt pi" "gamma_half 1 = sqrt pi / 2" "gamma_half 2 = 3 * sqrt pi / 4"
  "gamma_half (-1) = - 2 * sqrt pi"
  by (simp_all add: gamma_half_def eval_nat_numeral)

lemma sqrt_over_pi: "0 \<le> b \<Longrightarrow> sqrt (a / (b * b * pi)) = sqrt a / (b * sqrt pi)"
  by (simp add: real_sqrt_divide real_sqrt_mult)

lemma sqrt_scaled: "0 \<le> c \<Longrightarrow> sqrt a * c = sqrt (a * (c * c))"
  by (simp add: real_sqrt_mult)

lemma SA_values:
  "sqrt (1 / (4 * pi)) = 1 / (2 * sqrt pi)"
  "sqrt (3 / (4 * pi)) = sqrt 3 / (2 * sqrt pi)"
  "sqrt (5 / (4 * pi)) = sqrt 5 / (2 * sqrt pi)"
  "sqrt (5 / (48 * pi)) * 6 = sqrt 15 / (2 * sqrt pi)"
  "sqrt (5 / (12 * pi)) * 3 = sqrt 15 / (2 * sqrt pi)"
  "sqrt (5 / (48 * pi)) * 3 = sqrt 15 / (4 * sqrt pi)"
proof -
  show "sqrt (1 / (4 * pi)) = 1 / (2 * sqrt pi)" using sqrt_over_pi[of 2 1] by simp
  show "sqrt (3 / (4 * pi)) = sqrt 3 / (2 * sqrt pi)" using sqrt_over_pi[of 2 3] by simp
  show "sqrt (5 / (4 * pi)) = sqrt 5 / (2 * sqrt pi)" using sqrt_over_pi[of 2 5] by simp
  have "sqrt (5 / (48 * pi)) * 6 = sqrt (5 / (48 * pi) * (6 * 6))" by (rule sqrt_scaled) simp
  also have "5 / (48 * pi) * (6 * 6) = 15 / (2 * 2 * pi)" by simp
  also have "sqrt (15 / (2 * 2 * pi)) = sqrt 15 / (2 * sqrt pi)" by (rule sqrt_over_pi) simp
  finally show "sqrt (5 / (48 * pi)) * 6 = sqrt 15 / (2 * sqrt pi)" .
  have "sqrt (5 / (12 * pi)) * 3 = sqrt (5 / (12 * pi) * (3 * 3))" by (rule sqrt_scaled) simp
  also have "5 / (12 * pi) * (3 * 3) = 15 / (2 * 2 * pi)" by simp
  also have "sqrt (15 / (2 * 2 * pi)) = sqrt 15 / (2 * sqrt pi)" by (rule sqrt_over_pi) simp
  finally show "sqrt (5 / (12 * pi)) * 3 = sqrt 15 / (2 * sqrt pi)" .
  have "sqrt (5 / (48 * pi)) * 3 = sqrt (5 / (48 * pi) * (3 * 3))" by (rule sqrt_scaled) simp
  also have "5 / (48 * pi) * (3 * 3) = 15 / (4 * 4 * pi)" by simp
  also have "sqrt (15 / (4 * 4 * pi)) = sqrt 15 / (4 * sqrt pi)" by (rule sqrt_over_pi) simp
  finally show "sqrt (5 / (48 * pi)) * 3 = sqrt 15 / (4 * sqrt pi)" .
qed

lemmas Y_eval = Y_terms_def range2_values Y_term_def SA_def SB_def SC_def ratio_def factorial_def
  factorial_half_def gamma_half_values KroneckerDelta_def eval_nat_numeral

lemma Y_terms_0_0: "map the (Y_terms 0 0) = [(1 / (2 * sqrt pi), 0, 0, 0)]"
  by (simp add: Y_eval SA_values)

lemma Y_terms_1_m1: "map the (Y_terms 1 (- 1)) = [(sqrt 3 / (2 * sqrt pi), 0, 1, 0)]"
  by (simp add: Y_eval SA_values)

lemma Y_terms_1_0: "map the (Y_terms 1 0) = [(0, 0, 0, 0), (sqrt 3 / (2 * sqrt pi), 0, 0, 1)]"
  by (simp add: Y_eval SA_values)

lemma Y_terms_1_1: "map the (Y_terms 1 1) = [(sqrt 3 / (2 * sqrt pi), 1, 0, 0)]"
  by (simp add: Y_eval SA_values)

lemma Y_terms_2_m2: "map the (Y_terms 2 (- 2)) = [(sqrt 15 / (2 * sqrt pi), 1, 1, 0)]"
  by (simp add: Y_eval SA_values)

lemma Y_terms_2_m1: "map the (Y_terms 2 (- 1)) = [(0, 0, 1, 0), (sqrt 15 / (2 * sqrt pi), 0, 1, 1)]"
  by (simp add: Y_eval SA_values)

lemma Y_terms_2_0: "map the (Y_terms 2 0) =
    [(- (sqrt 5 / (2 * sqrt pi) / 2), 0, 0, 0), (sqrt 5 / (2 * sqrt pi) * 3 / 2, 0, 0, 0),
     (- (sqrt 5 / (2 * sqrt pi) * 3 / 2), 2, 0, 0), (- (sqrt 5 / (2 * sqrt pi) * 3 / 2), 0, 2, 0),
     (0, 0, 0, 1)]"
  by (simp add: Y_eval SA_values)

lemma Y_terms_2_1: "map the (Y_terms 2 1) = [(0, 1, 0, 0), (sqrt 15 / (2 * sqrt pi), 1, 0, 1)]"
  by (simp add: Y_eval SA_values)

lemma Y_terms_2_2: "map the (Y_terms 2 2) =
    [(sqrt 15 / (4 * sqrt pi), 2, 0, 0), (- (sqrt 15 / (4 * sqrt pi)), 0, 2, 0)]"
  by (simp add: Y_eval SA_values)

lemma poly_basis_values:
  "poly_basis 0 = (0, 0, 0)" "poly_basis (Suc 0) = (1, 0, 0)" "poly_basis 2 = (0, 0, 1)"
  "poly_basis 3 = (0, 1, 0)" "poly_basis 4 = (2, 0, 0)" "poly_basis 5 = (1, 0, 1)"
  "poly_basis 6 = (1, 1, 0)" "poly_basis 7 = (0, 1, 1)" "poly_basis 8 = (0, 2, 0)"
  by (simp_all add: poly_basis_def floor_sqrt_eq[of 1 1] floor_sqrt_eq[of 1 2] floor_sqrt_eq[of 1 3]
      floor_sqrt_eq[of 2 4] floor_sqrt_eq[of 2 5] floor_sqrt_eq[of 2 6] floor_sqrt_eq[of 2 7]
      floor_sqrt_eq[of 2 8])

lemma lm_pairs_2:
  "lm_pairs 2 = [(0, 0), (1, - 1), (1, 0), (1, 1), (2, - 2), (2, - 1), (2, 0), (2, 1), (2, 2)]"
  by code_simp


lemma upt_9: "[0..<9] = [0, 1, 2, 3, 4, 5, 6, 7, 8]"
  by code_simp

lemma A1_2_numeric: "\<exists>M. A1 2 default_norm = Some M \<and> square 9 M \<and> numeric M = A1_lmax2"
proof -
  obtain M where M: "A1 2 default_norm = Some M" "square ((2 + 1) ^ 2) M"
    "numeric M = map (\<lambda>r. map (\<lambda>c. default_norm * coeff_of (map the (Y_terms (fst (lm_pairs 2 ! c)) (snd (lm_pairs 2 ! c)))) (poly_basis r))
                      [0..<(2 + 1) ^ 2]) [0..<(2 + 1) ^ 2]"
    using A1_numeric[of 2 default_norm] by blast
  have nine: "(2 + 1) ^ 2 = (9::nat)" by simp
  have "numeric M = A1_lmax2"
    unfolding M(3) nine upt_9 lm_pairs_2
    apply (simp only: list.map nth_Cons_0 nth_Cons_numeral nth_Cons_Suc One_nat_def fst_conv snd_conv)
    apply (simp add: Y_terms_0_0 Y_terms_1_m1 Y_terms_1_0 Y_terms_1_1 Y_terms_2_m2 Y_terms_2_m1
        Y_terms_2_0 Y_terms_2_1 Y_terms_2_2)
    apply (simp add: poly_basis_values coeff_of_def A1_lmax2_def default_norm_def)
    done
  then show ?thesis using M(1,2) unfolding nine by blast
qed

subsection \<open>Inverses\<close>

lemma dot_sum: "length u = n \<Longrightarrow> length v = n \<Longrightarrow> dot u v = (\<Sum>i<n. u ! i * v ! i)"
proof -
  assume l: "length u = n" "length v = n"
  have "dot u v = (\<Sum>i = 0..<length (map2 (*) u v). map2 (*) u v ! i)"
    unfolding dot_def by (rule sum_list_sum_nth)
  also have "\<dots> = (\<Sum>i = 0..<n. u ! i * v ! i)" using l by simp
  finally show ?thesis by (simp add: atLeast0LessThan)
qed

lemma mat_vec_assoc:
  assumes "square n M" "square n A" "length v = n"
  shows "mat_vec (mat_mul n M A) v = mat_vec M (mat_vec A v)"
proof -
  have lA: "length A = n" using assms(2) by (simp add: square_def)
  have row: "dot (map (\<lambda>j. dot r (column A j)) [0..<n]) v = dot r (mat_vec A v)"
    if r: "length r = n" for r
  proof -
    have c: "dot r (column A j) = (\<Sum>i<n. r ! i * A ! i ! j)" for j
      using dot_sum[of r n "column A j"] r lA by (simp add: column_def)
    have a: "mat_vec A v ! i = (\<Sum>j<n. A ! i ! j * v ! j)" if "i < n" for i
      using dot_sum[of "A ! i" n v] square_nth[OF assms(2) that] assms(3) that lA
      by (simp add: mat_vec_def)
    have "dot (map (\<lambda>j. dot r (column A j)) [0..<n]) v = (\<Sum>j<n. (\<Sum>i<n. r ! i * A ! i ! j) * v ! j)"
      using dot_sum[of "map (\<lambda>j. dot r (column A j)) [0..<n]" n v] assms(3) by (simp add: c)
    also have "\<dots> = (\<Sum>j<n. \<Sum>i<n. r ! i * (A ! i ! j * v ! j))"
      by (simp add: sum_distrib_right mult.assoc)
    also have "\<dots> = (\<Sum>i<n. \<Sum>j<n. r ! i * (A ! i ! j * v ! j))" by (rule sum.swap)
    also have "\<dots> = (\<Sum>i<n. r ! i * mat_vec A v ! i)" by (simp add: a sum_distrib_left)
    also have "\<dots> = dot r (mat_vec A v)"
      using dot_sum[of r n "mat_vec A v"] r lA by (simp add: mat_vec_def)
    finally show ?thesis .
  qed
  have rows: "\<And>r. r \<in> set M \<Longrightarrow> length r = n"
    using assms(1) by (simp add: square_def list_all_iff)
  have "mat_vec (mat_mul n M A) v = map (\<lambda>r. dot (map (\<lambda>j. dot r (column A j)) [0..<n]) v) M"
    by (simp add: mat_vec_def mat_mul_def o_def)
  also have "\<dots> = map (\<lambda>r. dot r (mat_vec A v)) M"
    by (rule map_cong) (simp_all add: row rows)
  also have "\<dots> = mat_vec M (mat_vec A v)" by (simp add: mat_vec_def[of M])
  finally show ?thesis .
qed

lemma mat_vec_identity: "length v = n \<Longrightarrow> mat_vec (identity n) v = v"
proof -
  assume l: "length v = n"
  have "dot (unit_vec n i) v = v ! i" if "i < n" for i
  proof -
    have "dot (unit_vec n i) v = (\<Sum>j<n. (if j = i then 1 else 0) * v ! j)"
      using dot_sum[of "unit_vec n i" n v] l by (simp add: unit_vec_def)
    also have "\<dots> = (\<Sum>j<n. if j = i then v ! j else 0)" by (intro sum.cong) simp_all
    also have "\<dots> = v ! i" using that by simp
    finally show ?thesis .
  qed
  then show ?thesis using l by (intro nth_equalityI) (simp_all add: mat_vec_def identity_def)
qed

lemma inverse_apply:
  assumes "is_inverse n A M" "length v = n" "mat_vec A v = e"
  shows "mat_vec M e = v"
proof -
  have "mat_vec M e = mat_vec M (mat_vec A v)" by (simp add: assms(3))
  also have "\<dots> = mat_vec (mat_mul n M A) v"
    using mat_vec_assoc[of n M A v] assms(1,2) by (simp add: is_inverse_def)
  also have "\<dots> = v" using assms(1,2) by (simp add: is_inverse_def mat_vec_identity)
  finally show ?thesis .
qed

lemma is_inverse_lmax2: "is_inverse 9 A1_lmax2 M_lmax2"
  unfolding is_inverse_def
proof (intro conjI)
  show "square 9 A1_lmax2" by (simp add: square_def A1_lmax2_def)
  show "square 9 M_lmax2" by (simp add: square_def M_lmax2_def)
  show "mat_mul 9 A1_lmax2 M_lmax2 = identity 9"
    unfolding mat_mul_def identity_def unit_vec_def upt_9
    by (simp add: A1_lmax2_def M_lmax2_def column_def dot_def)
  show "mat_mul 9 M_lmax2 A1_lmax2 = identity 9"
    unfolding mat_mul_def identity_def unit_vec_def upt_9
    by (simp add: A1_lmax2_def M_lmax2_def column_def dot_def)
qed

lemma A1_2_inverse:
  assumes "A1 2 default_norm = Some A"
  shows "numeric A = A1_lmax2" "is_inverse 9 (numeric A) M_lmax2"
proof -
  show n: "numeric A = A1_lmax2" using A1_2_numeric assms by auto
  show "is_inverse 9 (numeric A) M_lmax2" by (simp add: n is_inverse_lmax2)
qed

lemma lm_pairs_nth:
  "n < (lmax + 1) ^ 2 \<Longrightarrow>
   lm_pairs lmax ! n = (\<lfloor>sqrt (real n)\<rfloor>, int n - \<lfloor>sqrt (real n)\<rfloor> * \<lfloor>sqrt (real n)\<rfloor> - \<lfloor>sqrt (real n)\<rfloor>)"
proof (induction lmax)
  case 0
  then have "n = 0" by simp
  then show ?case by (simp add: lm_pairs_def)
next
  case (Suc k)
  show ?case
  proof (cases "n < (k + 1) ^ 2")
    case True
    then show ?thesis using Suc.IH by (simp add: lm_pairs_Suc nth_append length_lm_pairs)
  next
    case False
    define d where "d = n - (k + 1) ^ 2"
    have n: "n = (k + 1) ^ 2 + d" using False by (simp add: d_def)
    have "n < (k + 2) ^ 2" using Suc.prems by (simp add: numeral_2_eq_2)
    then have d: "d < 2 * k + 3" unfolding n by (simp add: power2_eq_square)
    have fl: "\<lfloor>sqrt (real n)\<rfloor> = int k + 1"
    proof (rule floor_sqrt_eq)
      show "0 \<le> int k + 1" by simp
      have "(k + 1) * (k + 1) \<le> n" using n by (simp add: power2_eq_square)
      then have "real ((k + 1) * (k + 1)) \<le> real n" by (simp only: of_nat_le_iff)
      then show "real_of_int (int k + 1) * real_of_int (int k + 1) \<le> real n"
        by (simp add: algebra_simps)
      have "n < (k + 2) * (k + 2)" using \<open>n < (k + 2) ^ 2\<close> by (simp add: power2_eq_square)
      then have "real n < real ((k + 2) * (k + 2))" by (simp only: of_nat_less_iff)
      then show "real n < (real_of_int (int k + 1) + 1) * (real_of_int (int k + 1) + 1)"
        by (simp add: algebra_simps)
    qed
    have "lm_pairs (Suc k) ! n = map (\<lambda>m. (int k + 1, m)) [- (int k + 1)..int k + 1] ! d"
      using False by (simp add: lm_pairs_Suc nth_append length_lm_pairs d_def)
    also have "\<dots> = (int k + 1, [- (int k + 1)..int k + 1] ! d)" using d by simp
    also have "[- (int k + 1)..int k + 1] ! d = - (int k + 1) + int d"
      using d by (intro nth_upto) simp
    also have "- (int k + 1) + int d = int n - (int k + 1) * (int k + 1) - (int k + 1)"
      unfolding n by (simp add: power2_eq_square algebra_simps)
    finally show ?thesis by (simp add: fl)
  qed
qed

lemma is_const_scale: "is_const e \<Longrightarrow> is_const (scale c e)"
  by (simp add: is_const_def scale_def list_all_iff)

lemma is_const_Coefficient: "is_const (Coefficient e t)"
  by (simp add: Coefficient_def is_const_subs_all_zero)

subsection \<open>Zero and non-zero weights\<close>

lemma SB_zero:
  assumes "0 \<le> j" "j \<le> m" "0 \<le> k" "m + k \<le> l" "even (- l + m + k - 1)"
  shows "SB l m j k = Some 0"
proof -
  have "- l + m + k - 1 < 0" using assms by linarith
  then have "(- l + m + k - 1) div 2 < 0" by simp
  then have d: "factorial_half (- l + m + k - 1) = None"
    using assms(5) by (simp add: factorial_half_def factorial_def)
  obtain r where "ratio l m k = Some r" using ratio_Some[of m k l] assms by auto
  then have "ratio l m k = Some 0" using d by (auto simp: ratio_def split: option.splits)
  then show ?thesis using assms by (simp add: SB_def factorial_def)
qed

lemma SB_nonzero:
  assumes "0 \<le> j" "j \<le> m" "0 \<le> k" "m + k \<le> l" "odd (- l + m + k - 1)"
  shows "\<exists>b. SB l m j k = Some b \<and> b \<noteq> 0"
proof -
  have "odd (l + m + k - 1)" using assms(5) by presburger
  then have "ratio l m k = Some (gamma_half ((l + m + k - 1 + 1) div 2) / gamma_half ((- l + m + k - 1 + 1) div 2))"
    using assms(5) by (simp add: ratio_def factorial_half_def)
  then show ?thesis using assms by (simp add: SB_def factorial_def gamma_half_nonzero)
qed

lemma monos_add_term_nonzero:
  "snd ` set (add_term a e) \<subseteq> (if fst a = 0 then {} else {snd a}) \<union> snd ` set e"
proof (induction e)
  case Nil
  show ?case by (cases a) simp
next
  case (Cons b e)
  obtain c m where a: "a = (c, m)" by (cases a)
  obtain c' m' where b: "b = (c', m')" by (cases b)
  show ?case using Cons by (auto simp: a b split: if_splits)
qed

lemma monos_fold_add_term_nonzero:
  "snd ` set (fold add_term ts e) \<subseteq> snd ` {a \<in> set ts. fst a \<noteq> 0} \<union> snd ` set e"
proof (induction ts arbitrary: e)
  case Nil show ?case by simp
next
  case (Cons a ts)
  have "snd ` set (fold add_term ts (add_term a e)) \<subseteq> snd ` {a \<in> set ts. fst a \<noteq> 0} \<union> snd ` set (add_term a e)"
    by (rule Cons.IH)
  also have "\<dots> \<subseteq> snd ` {a \<in> set ts. fst a \<noteq> 0} \<union> ((if fst a = 0 then {} else {snd a}) \<union> snd ` set e)"
    using monos_add_term_nonzero[of a e] by blast
  also have "\<dots> \<subseteq> snd ` {b \<in> set (a # ts). fst b \<noteq> 0} \<union> snd ` set e" by auto
  finally show ?case by simp
qed

lemma Y_terms_cases:
  assumes "t \<in> set (Y_terms l m)"
  obtains s j k p q kc ez where "t = Y_term s l \<bar>m\<bar> j k p q kc ez"
    "0 \<le> j" "j \<le> \<bar>m\<bar>" "0 \<le> k" "\<bar>m\<bar> + k \<le> l" "0 \<le> p" "0 \<le> q" "q \<le> p"
    "m < 0 \<longrightarrow> 1 \<le> j" "ez = 0 \<longrightarrow> even k \<and> kc = k" 
proof (cases "m \<ge> 0")
  case True
  with assms obtain s j k p q kc ez where
    "t = Y_term s l m j k p q kc ez" "0 \<le> j" "j \<le> m" "0 \<le> k" "m + k \<le> l" "0 \<le> p" "0 \<le> q"
    "q \<le> p" "ez = 0 \<longrightarrow> even k \<and> kc = k"
    unfolding Y_terms_def by (auto simp: range2_mem)
  then show ?thesis using that[of s j k p q kc ez] True by simp
next
  case False
  with assms obtain s j k p q kc ez where
    "t = Y_term s l \<bar>m\<bar> j k p q kc ez" "1 \<le> j" "j \<le> \<bar>m\<bar>" "0 \<le> k" "\<bar>m\<bar> + k \<le> l" "0 \<le> p"
    "0 \<le> q" "q \<le> p" "ez = 0 \<longrightarrow> even k \<and> kc = k"
    unfolding Y_terms_def by (auto simp: range2_mem)
  then show ?thesis using that[of s j k p q kc ez] by simp
qed

lemma Y_term_origin:
  assumes t: "t \<in> set (Y_terms l m)" and o: "snd (the t) = (0, 0, 0)" and c: "m \<noteq> 0 \<or> odd l"
  shows "fst (the t) = 0"
proof -
  from t obtain s j k p q kc ez where y: "t = Y_term s l \<bar>m\<bar> j k p q kc ez"
    "0 \<le> j" "j \<le> \<bar>m\<bar>" "0 \<le> k" "\<bar>m\<bar> + k \<le> l" "0 \<le> p" "0 \<le> q" "q \<le> p"
    "m < 0 \<longrightarrow> 1 \<le> j" "ez = 0 \<longrightarrow> even k \<and> kc = k"
    by (rule Y_terms_cases)
  obtain a where a: "t = Some a" using Y_terms_Some[OF t] by blast
  then obtain sa sb sc where v: "SA l \<bar>m\<bar> = Some sa" "SB l \<bar>m\<bar> j k = Some sb" "SC p q kc = Some sc"
    "a = ((- 1) ^ nat (s div 2) * sa * sb * sc, (nat (\<bar>m\<bar> - j + p - q), nat (j + q), ez))"
    using y(1) by (auto simp: Y_term_def split: option.splits)
  from o a v(4) have z: "nat (\<bar>m\<bar> - j + p - q) = 0" "nat (j + q) = 0" "ez = 0" by simp_all
  from z(2) y(2,7) have j0: "j = 0" by linarith
  with y(9) have "m \<ge> 0" by linarith
  from z(1) y(3,8) have "\<bar>m\<bar> - j = 0" by linarith
  with j0 have m0: "m = 0" by simp
  with c have "odd l" by simp
  moreover have "even k" using y(10) z(3) by simp
  ultimately have "even (- l + \<bar>m\<bar> + k - 1)" using m0 by simp
  then have "SB l \<bar>m\<bar> j k = Some 0" using SB_zero[of j "\<bar>m\<bar>" k l] y by simp
  with v(2) have "sb = 0" by simp
  then show ?thesis by (simp add: a v(4))
qed

subsection \<open>The polynomial basis\<close>


lemma poly_basis_exact:
  fixes n :: nat
  defines "l \<equiv> \<lfloor>sqrt (real n)\<rfloor>"
  defines "m \<equiv> int n - l * l - l"
  defines "mu \<equiv> l - m"
  defines "nu \<equiv> l + m"
  shows "(even nu \<longrightarrow> (\<exists>i j. poly_basis n = (i, j, 0) \<and> real i = real_of_int mu / 2 \<and> real j = real_of_int nu / 2))
       \<and> (odd nu \<longrightarrow> (\<exists>i j. poly_basis n = (i, j, 1) \<and> real i = (real_of_int mu - 1) / 2 \<and> real j = (real_of_int nu - 1) / 2))
       \<and> poly_basis 0 = (0, 0, 0)"
proof -
  have b: "l * l \<le> int n" "int n < (l + 1) * (l + 1)"
    using floor_sqrt_bounds[of n] by (simp_all add: l_def)
  have l0: "0 \<le> l" by (simp add: l_def)
  have mu0: "0 \<le> mu" and nu0: "0 \<le> nu"
    using poly_basis_range[OF l0 b] by (simp_all add: mu_def nu_def m_def)
  have sum: "mu + nu = 2 * l" by (simp add: mu_def nu_def)
  have par: "even mu \<longleftrightarrow> even nu" using sum by presburger
  have zero: "poly_basis 0 = (0, 0, 0)" by (simp add: poly_basis_def)
  show ?thesis
  proof (cases "even nu")
    case True
    then have "poly_basis n = (nat (mu div 2), nat (nu div 2), 0)"
      by (simp add: poly_basis_def Let_def l_def m_def mu_def nu_def even_iff_mod_2_eq_zero)
    moreover have "real (nat (mu div 2)) = real_of_int mu / 2" using True par mu0 by auto
    moreover have "real (nat (nu div 2)) = real_of_int nu / 2" using True nu0 by auto
    ultimately show ?thesis using True zero by blast
  next
    case False
    then have "poly_basis n = (nat ((mu - 1) div 2), nat ((nu - 1) div 2), 1)"
      by (simp add: poly_basis_def Let_def l_def m_def mu_def nu_def even_iff_mod_2_eq_zero)
    moreover have "real (nat ((mu - 1) div 2)) = (real_of_int mu - 1) / 2"
      using False par mu0 by (auto elim!: oddE)
    moreover have "real (nat ((nu - 1) div 2)) = (real_of_int nu - 1) / 2"
      using False nu0 by (auto elim!: oddE)
    ultimately show ?thesis using False zero by blast
  qed
qed

lemma poly_basis_exact_values: "poly_basis 5 = (1, 0, 1) \<and> poly_basis 4 = (2, 0, 0)"
  using poly_basis_exact[of 5] poly_basis_exact[of 4]
  by (auto simp: floor_sqrt_eq[of 2 5] floor_sqrt_eq[of 2 4])


subsection \<open>The coefficient extractor\<close>

text \<open>
  C9, as stated: for every polynomial expression and every target monomial,
  \<open>Coefficient\<close> returns the exact constant coefficient of the term.  It does not for the
  term \<open>1\<close>: in \<open>3 * x + 4\<close> the constant coefficient of \<open>1\<close> is \<open>4\<close>, and no addend has the numeric
  coefficient \<open>1\<close>, so that \<open>coeff(1)\<close> and \<open>Coefficient\<close> return \<open>0\<close>.
\<close>

theorem Coefficient_one_counterexample:
  "coeff_of [(3, (1, 0, 0)), (4, (0, 0, 0))] (0, 0, 0) = 4
   \<and> Coefficient [(3, (1, 0, 0)), (4, (0, 0, 0))] (0, 0, 0) = []
   \<and> const_val (Coefficient [(3, (1, 0, 0)), (4, (0, 0, 0))] (0, 0, 0)) = 0"
  by (simp add: Coefficient_def coeff_def factors_def subs_all_zero_def subs_zero_def
      coeff_of_def const_val_def)

text \<open>
  C9, amended.  For every expression \<open>e\<close> that is a sum of addends \<open>c * x\<^sup>a * y\<^sup>b * z\<^sup>k\<close>, as
  \<open>Y\<close> builds it, and every target monomial \<open>t\<close> with at least one factor (every term of the
  polynomial basis but the first: the terms \<open>p_Y\<close> passes), \<open>Coefficient e t\<close> is a constant:
  what is left of a partial match (an addend that has the factors of \<open>t\<close> and further powers
  of \<open>x\<close>, \<open>y\<close> or \<open>z\<close>) is set to zero; and its value is the coefficient of \<open>t\<close> in \<open>e\<close>.
\<close>

theorem Coefficient_exact:
  "factors t \<noteq> [] \<Longrightarrow> is_const (Coefficient e t) \<and> const_val (Coefficient e t) = coeff_of e t"
  by (simp add: Coefficient_def is_const_subs_all_zero const_val_subs_all_zero coeff_of_coeff_zero)

theorem Coefficient_exact_witness:
  "factors (1, 0, 0) \<noteq> []
   \<and> is_const (Coefficient [(3, (1, 0, 0)), (2, (1, 2, 0)), (5, (2, 0, 0)), (7, (1, 0, 1))] (1, 0, 0))
   \<and> const_val (Coefficient [(3, (1, 0, 0)), (2, (1, 2, 0)), (5, (2, 0, 0)), (7, (1, 0, 1))] (1, 0, 0)) = 3"
  using Coefficient_exact[of "(1, 0, 0)" "[(3, (1, 0, 0)), (2, (1, 2, 0)), (5, (2, 0, 0)), (7, (1, 0, 1))]"]
  by (simp add: factors_def coeff_of_def)

text \<open>The terms \<open>p_Y\<close> passes have a factor.\<close>

lemma Coefficient_poly_basis:
  "0 < n \<Longrightarrow> const_val (Coefficient e (poly_basis n)) = coeff_of e (poly_basis n)"
  by (simp add: Coefficient_def const_val_subs_all_zero coeff_of_coeff_zero poly_basis_factors)

subsection \<open>Monomials as combinations of harmonics\<close>

text \<open>
  C4.  For \<open>lmax = 2\<close> the matrix \<open>A1(2)\<close> has an inverse, and the inverse times the
  indicator vector \<open>[1,0,0,0,0,0,0,0,0]\<close> of the constant monomial is \<open>[pi,0,0,0,0,0,0,0,0]\<close>.
\<close>

theorem one_coefficients:
  assumes "A1 2 default_norm = Some A"
  shows "poly_basis 0 = (0, 0, 0) \<and> (\<exists>M. is_inverse 9 (numeric A) M) \<and>
         (\<forall>M. is_inverse 9 (numeric A) M \<longrightarrow>
            mat_vec M [1, 0, 0, 0, 0, 0, 0, 0, 0] = [pi, 0, 0, 0, 0, 0, 0, 0, 0])"
proof -
  have n: "numeric A = A1_lmax2" using A1_2_inverse(1)[OF assms] .
  have "mat_vec A1_lmax2 [pi, 0, 0, 0, 0, 0, 0, 0, 0] = [1, 0, 0, 0, 0, 0, 0, 0, 0]"
    by (simp add: mat_vec_def A1_lmax2_def dot_def)
  then have "mat_vec M [1, 0, 0, 0, 0, 0, 0, 0, 0] = [pi, 0, 0, 0, 0, 0, 0, 0, 0]"
    if "is_inverse 9 (numeric A) M" for M
    using inverse_apply[of 9 A1_lmax2 M] that by (simp add: n)
  then show ?thesis using A1_2_inverse(2)[OF assms] by (simp add: poly_basis_values) blast
qed

theorem one_coefficients_witness:
  "A1 2 default_norm = Some (the (A1 2 default_norm))
   \<and> is_inverse 9 (numeric (the (A1 2 default_norm))) M_lmax2
   \<and> mat_vec M_lmax2 [1, 0, 0, 0, 0, 0, 0, 0, 0] = [pi, 0, 0, 0, 0, 0, 0, 0, 0]"
proof -
  obtain A where A: "A1 2 default_norm = Some A" using A1_2_numeric by blast
  have inv: "is_inverse 9 (numeric A) M_lmax2" using A1_2_inverse(2)[OF A] .
  from one_coefficients[OF A] inv
  have "mat_vec M_lmax2 [1, 0, 0, 0, 0, 0, 0, 0, 0] = [pi, 0, 0, 0, 0, 0, 0, 0, 0]" by blast
  then show ?thesis using A inv by simp
qed

text \<open>
  C2.  For \<open>lmax = 2\<close> the inverse of \<open>A1(2)\<close> times the indicator vector of \<open>x\<^sup>2\<close> (index 4
  of the polynomial basis) is \<open>[pi/3, 0, 0, 0, 0, 0, -sqrt(5) pi/15, 0, sqrt(15) pi/15]\<close>.
\<close>

theorem x2_coefficients:
  assumes "A1 2 default_norm = Some A"
  shows "poly_basis 4 = (2, 0, 0) \<and> (\<exists>M. is_inverse 9 (numeric A) M) \<and>
         (\<forall>M. is_inverse 9 (numeric A) M \<longrightarrow>
            mat_vec M [0, 0, 0, 0, 1, 0, 0, 0, 0]
              = [pi / 3, 0, 0, 0, 0, 0, - (sqrt 5 * pi / 15), 0, sqrt 15 * pi / 15])"
proof -
  have n: "numeric A = A1_lmax2" using A1_2_inverse(1)[OF assms] .
  have "mat_vec A1_lmax2 [pi / 3, 0, 0, 0, 0, 0, - (sqrt 5 * pi / 15), 0, sqrt 15 * pi / 15]
      = [0, 0, 0, 0, 1, 0, 0, 0, 0]"
    by (simp add: mat_vec_def A1_lmax2_def dot_def)
  then have "mat_vec M [0, 0, 0, 0, 1, 0, 0, 0, 0]
              = [pi / 3, 0, 0, 0, 0, 0, - (sqrt 5 * pi / 15), 0, sqrt 15 * pi / 15]"
    if "is_inverse 9 (numeric A) M" for M
    using inverse_apply[of 9 A1_lmax2 M] that by (simp add: n)
  then show ?thesis using A1_2_inverse(2)[OF assms] by (simp add: poly_basis_values) blast
qed

theorem x2_coefficients_witness:
  "A1 2 default_norm = Some (the (A1 2 default_norm))
   \<and> is_inverse 9 (numeric (the (A1 2 default_norm))) M_lmax2
   \<and> mat_vec M_lmax2 [0, 0, 0, 0, 1, 0, 0, 0, 0]
       = [pi / 3, 0, 0, 0, 0, 0, - (sqrt 5 * pi / 15), 0, sqrt 15 * pi / 15]"
proof -
  obtain A where A: "A1 2 default_norm = Some A" using A1_2_numeric by blast
  have inv: "is_inverse 9 (numeric A) M_lmax2" using A1_2_inverse(2)[OF A] .
  from x2_coefficients[OF A] inv
  have "mat_vec M_lmax2 [0, 0, 0, 0, 1, 0, 0, 0, 0]
       = [pi / 3, 0, 0, 0, 0, 0, - (sqrt 5 * pi / 15), 0, sqrt 15 * pi / 15]" by blast
  then show ?thesis using A inv by simp
qed

text \<open>
  C3, as stated: the inverse of \<open>A1(2)\<close> times \<open>e\<^sub>3\<close> has its only non-zero entry at the
  slot of \<open>Y\<^sub>1\<^sub>,\<^sub>1\<close> (slot 3).  It does not: index 3 of the polynomial basis is the monomial
  \<open>y\<close>, and the product has its non-zero entry at slot 1, the slot of \<open>Y\<^sub>1\<^sub>,\<^sub>-\<^sub>1\<close>.
\<close>

theorem x_index3_counterexample:
  "poly_basis 3 = (0, 1, 0)
   \<and> is_inverse 9 (numeric (the (A1 2 default_norm))) M_lmax2
   \<and> mat_vec M_lmax2 [0, 0, 0, 1, 0, 0, 0, 0, 0] = [0, sqrt 3 * pi / 3, 0, 0, 0, 0, 0, 0, 0]
   \<and> lm_pairs 2 ! 1 = (1, - 1)"
proof -
  obtain A where A: "A1 2 default_norm = Some A" using A1_2_numeric by blast
  have inv: "is_inverse 9 (numeric A) M_lmax2" using A1_2_inverse(2)[OF A] .
  have "mat_vec M_lmax2 [0, 0, 0, 1, 0, 0, 0, 0, 0] = [0, sqrt 3 * pi / 3, 0, 0, 0, 0, 0, 0, 0]"
    by (simp add: mat_vec_def M_lmax2_def dot_def)
  then show ?thesis using A inv by (simp add: poly_basis_values lm_pairs_2)
qed

text \<open>
  C3, amended.  The monomial \<open>x\<close> is at index 1 of the polynomial basis, and the inverse
  of \<open>A1(2)\<close> times \<open>e\<^sub>1\<close> (the vector of the notebook's cell) has its only non-zero entry at
  slot 3, the slot of \<open>Y\<^sub>1\<^sub>,\<^sub>1\<close>, where it is \<open>sqrt(3) pi/3\<close>.
\<close>

theorem x_coefficients:
  assumes "A1 2 default_norm = Some A"
  shows "poly_basis 1 = (1, 0, 0) \<and> lm_pairs 2 ! 3 = (1, 1) \<and>
         (\<exists>M. is_inverse 9 (numeric A) M) \<and>
         (\<forall>M. is_inverse 9 (numeric A) M \<longrightarrow>
            mat_vec M [0, 1, 0, 0, 0, 0, 0, 0, 0] = [0, 0, 0, sqrt 3 * pi / 3, 0, 0, 0, 0, 0])"
proof -
  have n: "numeric A = A1_lmax2" using A1_2_inverse(1)[OF assms] .
  have "mat_vec A1_lmax2 [0, 0, 0, sqrt 3 * pi / 3, 0, 0, 0, 0, 0] = [0, 1, 0, 0, 0, 0, 0, 0, 0]"
    by (simp add: mat_vec_def A1_lmax2_def dot_def)
  then have "mat_vec M [0, 1, 0, 0, 0, 0, 0, 0, 0] = [0, 0, 0, sqrt 3 * pi / 3, 0, 0, 0, 0, 0]"
    if "is_inverse 9 (numeric A) M" for M
    using inverse_apply[of 9 A1_lmax2 M] that by (simp add: n)
  then show ?thesis using A1_2_inverse(2)[OF assms] by (simp add: poly_basis_values lm_pairs_2) blast
qed

theorem x_coefficients_witness:
  "A1 2 default_norm = Some (the (A1 2 default_norm))
   \<and> is_inverse 9 (numeric (the (A1 2 default_norm))) M_lmax2
   \<and> mat_vec M_lmax2 [0, 1, 0, 0, 0, 0, 0, 0, 0] = [0, 0, 0, sqrt 3 * pi / 3, 0, 0, 0, 0, 0]"
proof -
  obtain A where A: "A1 2 default_norm = Some A" using A1_2_numeric by blast
  have inv: "is_inverse 9 (numeric A) M_lmax2" using A1_2_inverse(2)[OF A] .
  from x_coefficients[OF A] inv
  have "mat_vec M_lmax2 [0, 1, 0, 0, 0, 0, 0, 0, 0] = [0, 0, 0, sqrt 3 * pi / 3, 0, 0, 0, 0, 0]" by blast
  then show ?thesis using A inv by simp
qed


subsection \<open>The layout of the matrix\<close>

text \<open>
  C8, as stated: row \<open>n\<close> of \<open>A1(lmax, norm)\<close> is \<open>p_Y(l(n), m(n), lmax)\<close> times \<open>norm\<close>.  It is
  not: for \<open>lmax = 2\<close> row 0 differs from \<open>p_Y(0, 0, 2)\<close> times the default norm.
\<close>

theorem A1_rows_counterexample:
  "lm_pairs 2 ! 0 = (0, 0) \<and> A1 2 default_norm \<noteq> None \<and> p_Y 0 0 2 \<noteq> None
   \<and> the (A1 2 default_norm) ! 0 \<noteq> map (scale default_norm) (the (p_Y 0 0 2))"
proof -
  obtain M where M: "A1 2 default_norm = Some M" "square 9 M" "numeric M = A1_lmax2"
    using A1_2_numeric by blast
  obtain v where v: "p_Y 0 0 2 = Some v" by (simp add: p_Y_Some)
  have "const_val (v ! 6) = coeff_of (map the (Y_terms 0 0)) (poly_basis 6)"
    using p_Y_nth_value[OF v, of 6] by simp
  then have v6: "const_val (v ! 6) = 0" by (simp add: Y_terms_0_0 poly_basis_values coeff_of_def)
  have lv: "length v = 9" using p_Y_length[OF v] by simp
  have lM: "length M = 9" "length (M ! 0) = 9" using M(2) square_nth[OF M(2), of 0] by (simp_all add: square_def)
  have "const_val (M ! 0 ! 6) = numeric M ! 0 ! 6" using lM by (simp add: numeric_def)
  also have "\<dots> = sqrt 5 / pi" by (simp add: M(3) A1_lmax2_def)
  finally have m6: "const_val (M ! 0 ! 6) = sqrt 5 / pi" .
  have "M ! 0 \<noteq> map (scale default_norm) v"
  proof
    assume "M ! 0 = map (scale default_norm) v"
    then have "const_val (M ! 0 ! 6) = const_val (scale default_norm (v ! 6))" using lv by simp
    then show False using m6 v6 by (simp add: const_val_scale)
  qed
  then show ?thesis using M(1) v by (simp add: lm_pairs_2)
qed

text \<open>
  C8, amended.  For every \<open>lmax\<close> and every \<open>n < (lmax + 1)\<^sup>2\<close>, column \<open>n\<close> of
  \<open>A1(lmax, norm)\<close> is \<open>p_Y(l(n), m(n), lmax)\<close> multiplied entrywise by \<open>norm\<close>, where
  \<open>(l(n), m(n))\<close> is the \<open>n\<close>-th pair of the loops \<open>l = 0..lmax\<close>, \<open>m = -l..l\<close>, that is
  \<open>l(n) = floor(sqrt n)\<close> and \<open>m(n) = n - l(n)\<^sup>2 - l(n)\<close>.
\<close>

theorem A1_columns:
  assumes "n < (lmax + 1) ^ 2"
  shows "\<exists>M v l m. l = \<lfloor>sqrt (real n)\<rfloor> \<and> m = int n - l * l - l \<and> lm_pairs lmax ! n = (l, m)
           \<and> A1 lmax nrm = Some M \<and> p_Y l m lmax = Some v \<and> column M n = map (scale nrm) v"
proof -
  define N where "N = (lmax + 1) ^ 2"
  define l where "l = \<lfloor>sqrt (real n)\<rfloor>"
  define m where "m = int n - l * l - l"
  have lm: "lm_pairs lmax ! n = (l, m)" using lm_pairs_nth[OF assms] by (simp add: l_def m_def)
  obtain M where M: "A1 lmax nrm = Some M" "square N M"
     "\<forall>r<N. \<forall>c<N. M ! r ! c = scale nrm (the (p_Y (fst (lm_pairs lmax ! c)) (snd (lm_pairs lmax ! c)) lmax) ! r)"
    using A1_entries[of lmax nrm] unfolding N_def by blast
  have "\<bar>m\<bar> \<le> l" using lm_pairs_nth_valid[OF assms] by (simp add: lm)
  then obtain v where v: "p_Y l m lmax = Some v" by (simp add: p_Y_Some)
  have lv: "length v = N" using p_Y_length[OF v] by (simp add: N_def)
  have lM: "length M = N" using M(2) by (simp add: square_def)
  have "column M n = map (scale nrm) v"
  proof (rule nth_equalityI)
    show "length (column M n) = length (map (scale nrm) v)" by (simp add: column_def lM lv)
  next
    fix r assume "r < length (column M n)"
    then have r: "r < N" by (simp add: column_def lM)
    have "n < N" using assms by (simp add: N_def)
    with M(3) r have "M ! r ! n = scale nrm (v ! r)" by (simp add: lm v)
    then show "column M n ! r = map (scale nrm) v ! r" using r by (simp add: column_nth lM lv)
  qed
  then show ?thesis using M(1) v lm l_def m_def by blast
qed

theorem A1_columns_witness:
  "(4::nat) < (2 + 1) ^ 2 \<and> lm_pairs 2 ! 4 = (2, - 2) \<and> A1 2 default_norm \<noteq> None \<and> p_Y 2 (- 2) 2 \<noteq> None
   \<and> column (the (A1 2 default_norm)) 4 = map (scale default_norm) (the (p_Y 2 (- 2) 2))"
proof -
  have h: "(4::nat) < (2 + 1) ^ 2" by simp
  have f: "\<lfloor>sqrt (real 4)\<rfloor> = 2" using floor_sqrt_eq[of 2 4] by simp
  from A1_columns[OF h, of default_norm] f
  have "\<exists>M v. lm_pairs 2 ! 4 = (2, - 2) \<and> A1 2 default_norm = Some M \<and> p_Y 2 (- 2) 2 = Some v
           \<and> column M 4 = map (scale default_norm) v" by simp
  then show ?thesis using h by auto
qed

subsection \<open>Constant entries\<close>

text \<open>
  C10.  For \<open>0 \<le> l \<le> lmax\<close> and \<open>-l \<le> m \<le> l\<close>, \<open>p_Y(l, m, lmax)\<close> returns \<open>(lmax + 1)\<^sup>2\<close> entries,
  each a constant with no \<open>x\<close>, \<open>y\<close> or \<open>z\<close> in it; so is every entry of \<open>A1(lmax)\<close>.
\<close>

theorem p_Y_constants:
  assumes "0 \<le> l" "l \<le> int lmax" "\<bar>m\<bar> \<le> l"
  shows "(\<exists>v. p_Y l m lmax = Some v \<and> length v = (lmax + 1) ^ 2 \<and> list_all is_const v)
       \<and> (\<exists>M. A1 lmax nrm = Some M \<and> square ((lmax + 1) ^ 2) M \<and> list_all (list_all is_const) M)"
proof -
  have pY: "\<exists>v. p_Y l' m' lmax = Some v \<and> length v = (lmax + 1) ^ 2 \<and> list_all is_const v"
    if valid: "\<bar>m'\<bar> \<le> l'" for l' m'
  proof -
    obtain v where v: "p_Y l' m' lmax = Some v" using valid by (simp add: p_Y_Some)
    have "list_all is_const v"
      using v valid by (auto simp: p_Y_Some list_all_iff is_const_subs_all_zero is_const_Coefficient)
    then show ?thesis using v p_Y_length[OF v] by simp
  qed
  define N where "N = (lmax + 1) ^ 2"
  obtain M where M: "A1 lmax nrm = Some M" "square N M"
     "\<forall>r<N. \<forall>c<N. M ! r ! c = scale nrm (the (p_Y (fst (lm_pairs lmax ! c)) (snd (lm_pairs lmax ! c)) lmax) ! r)"
    using A1_entries[of lmax nrm] unfolding N_def by blast
  have "is_const (M ! r ! c)" if rN: "r < N" and cN: "c < N" for r c
  proof -
    obtain v where v: "p_Y (fst (lm_pairs lmax ! c)) (snd (lm_pairs lmax ! c)) lmax = Some v"
      "length v = N" "list_all is_const v"
      using pY[OF lm_pairs_nth_valid[of c lmax]] cN unfolding N_def by blast
    have "is_const (v ! r)" using v(2,3) rN by (simp add: list_all_length)
    moreover have "M ! r ! c = scale nrm (v ! r)" using M(3) rN cN by (simp add: v(1))
    ultimately show ?thesis by (simp add: is_const_scale)
  qed
  then have "list_all (list_all is_const) M"
    using M(2) square_nth[OF M(2)] by (simp add: list_all_length square_def)
  then show ?thesis using pY[OF assms(3)] M(1,2) unfolding N_def by blast
qed

theorem p_Y_constants_witness:
  "(0::int) \<le> 2 \<and> (2::int) \<le> int 2 \<and> \<bar>0::int\<bar> \<le> 2
   \<and> p_Y 2 0 2 \<noteq> None \<and> length (the (p_Y 2 0 2)) = 9 \<and> list_all is_const (the (p_Y 2 0 2))
   \<and> A1 2 default_norm \<noteq> None \<and> list_all (list_all is_const) (the (A1 2 default_norm))"
proof -
  have h: "(0::int) \<le> 2" "(2::int) \<le> int 2" "\<bar>0::int\<bar> \<le> 2" by simp_all
  from p_Y_constants[OF h, of default_norm] show ?thesis by auto
qed


subsection \<open>The combinatorial weight\<close>

text \<open>
  C7, as stated: whenever a factorial argument of the ratio term is negative or not an
  integer, \<open>SB\<close> returns \<open>0\<close>.  It does not: in \<open>SB(1, 1, 0, 0)\<close> the arguments are \<open>1/2\<close> and
  \<open>-1/2\<close>, and the result is \<open>1\<close>.
\<close>

theorem SB_counterexample:
  "invalid_factorial_arg (1 + 1 + 0 - 1) \<and> invalid_factorial_arg (- 1 + 1 + 0 - 1) \<and> SB 1 1 0 0 = Some 1"
  by (simp add: invalid_factorial_arg_def SB_def ratio_def factorial_def factorial_half_def gamma_half_values)

text \<open>
  C7, amended.  For all arguments in the ranges of the loops (\<open>0 \<le> j \<le> m\<close>,
  \<open>0 \<le> k \<le> l - m\<close>) \<open>SB\<close> returns a value and never raises; the value is \<open>0\<close> exactly when the
  factorial argument in the denominator of the ratio term, \<open>(-l + m + k - 1)/2\<close>, is an
  integer (it is negative then), and it is not \<open>0\<close> when the arguments are half-integers.
\<close>

theorem SB_valid:
  assumes "0 \<le> j" "j \<le> m" "0 \<le> k" "m + k \<le> l"
  shows "\<exists>b. SB l m j k = Some b \<and> (b = 0 \<longleftrightarrow> even (- l + m + k - 1))"
proof (cases "even (- l + m + k - 1)")
  case True
  then show ?thesis using SB_zero[OF assms] by simp
next
  case False
  then show ?thesis using SB_nonzero[OF assms] by auto
qed

theorem SB_valid_witness:
  "(0::int) \<le> 0 \<and> (0::int) \<le> 0 \<and> (0::int) \<le> 1 \<and> (0::int) + 1 \<le> 2
   \<and> SB 2 0 0 1 = Some 0 \<and> even (- 2 + 0 + 1 - (1::int)) \<and> SB 1 1 0 0 = Some 1"
proof -
  have h: "(0::int) \<le> 0" "(0::int) \<le> 0" "(0::int) \<le> 1" "(0::int) + 1 \<le> 2" by simp_all
  have e: "even (- 2 + 0 + 1 - (1::int))" by simp
  from SB_valid[OF h] e have "SB 2 0 0 1 = Some 0" by auto
  moreover have "SB 1 1 0 0 = Some 1"
    by (simp add: SB_def ratio_def factorial_def factorial_half_def gamma_half_values)
  ultimately show ?thesis by simp
qed


subsection \<open>The harmonics at the origin\<close>

text \<open>
  C6, as stated: for every valid \<open>(l, m)\<close> with \<open>l > 0\<close>, \<open>Y(l, m)\<close> with \<open>z\<close>, \<open>x\<close> and \<open>y\<close>
  set to \<open>0\<close> is \<open>0\<close>.  It is not: \<open>Y(2, 0)\<close> has the constant term \<open>sqrt(5)/(2 sqrt(pi))\<close>.
\<close>

theorem Y_at_origin_counterexample:
  "Y 2 0 \<noteq> None \<and> const_val (subs_all_zero (the (Y 2 0))) = sqrt 5 / (2 * sqrt pi)
   \<and> sqrt 5 / (2 * sqrt pi) \<noteq> 0"
  by (simp add: Y_total const_val_subs_all_zero coeff_of_fold_add_term coeff_of_Nil Y_terms_2_0
      coeff_of_def)


text \<open>
  C6, amended.  For every valid \<open>(l, m)\<close>, \<open>Y(l, m)\<close> with \<open>z\<close>, \<open>x\<close> and \<open>y\<close> set to \<open>0\<close> is
  \<open>1/(2 sqrt(pi))\<close> when \<open>l = m = 0\<close>, and is \<open>0\<close> when \<open>l > 0\<close> and \<open>m \<noteq> 0\<close> or \<open>l\<close> is odd.
\<close>

theorem Y_at_origin:
  assumes "0 \<le> l" "\<bar>m\<bar> \<le> l"
  shows "\<exists>e. Y l m = Some e
           \<and> (l = 0 \<longrightarrow> const_val (subs_all_zero e) = 1 / (2 * sqrt pi))
           \<and> (0 < l \<and> (m \<noteq> 0 \<or> odd l) \<longrightarrow> subs_all_zero e = [])"
proof -
  define e where "e = fold add_term (map the (Y_terms l m)) []"
  have Y: "Y l m = Some e" by (simp add: Y_total e_def)
  have one: "const_val (subs_all_zero e) = 1 / (2 * sqrt pi)" if "l = 0"
  proof -
    have "m = 0" using assms(2) that by simp
    then show ?thesis using that
      by (simp add: e_def const_val_subs_all_zero coeff_of_fold_add_term coeff_of_Nil Y_terms_0_0
          coeff_of_def)
  qed
  have zero: "subs_all_zero e = []" if c: "m \<noteq> 0 \<or> odd l"
  proof -
    have "(0, 0, 0) \<notin> snd ` {a \<in> set (map the (Y_terms l m)). fst a \<noteq> 0}"
      using Y_term_origin[OF _ _ c] by auto
    then have "(0, 0, 0) \<notin> snd ` set e"
      using monos_fold_add_term_nonzero[of "map the (Y_terms l m)" "[]"] unfolding e_def by auto
    then have "\<And>a. a \<in> set e \<Longrightarrow> snd a \<noteq> (0, 0, 0)" by (metis imageI)
    then show ?thesis by (simp add: subs_all_zero_filter filter_empty_conv)
  qed
  show ?thesis using Y one zero by blast
qed

theorem Y_at_origin_witness:
  "(0::int) \<le> 1 \<and> \<bar>0::int\<bar> \<le> 1 \<and> Y 1 0 \<noteq> None \<and> subs_all_zero (the (Y 1 0)) = []
   \<and> Y 0 0 \<noteq> None \<and> const_val (subs_all_zero (the (Y 0 0))) = 1 / (2 * sqrt pi)"
proof -
  have h1: "(0::int) \<le> 1" "\<bar>0::int\<bar> \<le> 1" and h0: "(0::int) \<le> 0" "\<bar>0::int\<bar> \<le> 0" by simp_all
  from Y_at_origin[OF h1] have "Y 1 0 \<noteq> None \<and> subs_all_zero (the (Y 1 0)) = []" by auto
  moreover from Y_at_origin[OF h0]
  have "Y 0 0 \<noteq> None \<and> const_val (subs_all_zero (the (Y 0 0))) = 1 / (2 * sqrt pi)" by auto
  ultimately show ?thesis by simp
qed

section \<open>The matrix is invertible for every degree\<close>

text \<open>
  The coefficients of \<open>Y(l, m)\<close> vanish on the monomials of degree above \<open>l\<close>, so the matrix is
  block triangular by degree.  In degree \<open>l\<close> the coefficients vanish outside the class of the
  harmonic, and inside a class they are a product of a unitriangular matrix of binomials, a
  triangular matrix with a positive diagonal and a diagonal matrix that never vanishes.
\<close>

subsection \<open>Inverses on index sets\<close>

lemma inverse_on_empty: "inverse_on {} {} a b"
  by (simp add: inverse_on_def)

lemma inverse_on_transpose:
  "inverse_on I J a b \<Longrightarrow> inverse_on J I (\<lambda>j i. a i j) (\<lambda>i j. b j i)"
  unfolding inverse_on_def
proof (intro conjI ballI)
  fix j j' assume j: "j \<in> J" "j' \<in> J"
  assume h: "(\<forall>i\<in>I. \<forall>i'\<in>I. (\<Sum>j\<in>J. a i j * b j i') = (if i = i' then 1 else 0)) \<and>
     (\<forall>j\<in>J. \<forall>j'\<in>J. (\<Sum>i\<in>I. b j i * a i j') = (if j = j' then 1 else 0))"
  have "(\<Sum>i\<in>I. a i j * b j' i) = (\<Sum>i\<in>I. b j' i * a i j)" by (simp add: mult.commute)
  also have "\<dots> = (if j' = j then 1 else 0)" using h j by blast
  finally show "(\<Sum>i\<in>I. a i j * b j' i) = (if j = j' then 1 else 0)" by (simp add: eq_commute)
next
  fix i i' assume i: "i \<in> I" "i' \<in> I"
  assume h: "(\<forall>i\<in>I. \<forall>i'\<in>I. (\<Sum>j\<in>J. a i j * b j i') = (if i = i' then 1 else 0)) \<and>
     (\<forall>j\<in>J. \<forall>j'\<in>J. (\<Sum>i\<in>I. b j i * a i j') = (if j = j' then 1 else 0))"
  have "(\<Sum>j\<in>J. b j i * a i' j) = (\<Sum>j\<in>J. a i' j * b j i)" by (simp add: mult.commute)
  also have "\<dots> = (if i' = i then 1 else 0)" using h i by blast
  finally show "(\<Sum>j\<in>J. b j i * a i' j) = (if i = i' then 1 else 0)" by (simp add: eq_commute)
qed

lemma inverse_on_cong:
  assumes "inverse_on I J a b" "\<And>i j. i \<in> I \<Longrightarrow> j \<in> J \<Longrightarrow> a' i j = a i j"
  shows "inverse_on I J a' b"
  using assms unfolding inverse_on_def by simp

lemma inverse_on_reindex:
  assumes f: "bij_betw f I' I" and g: "bij_betw g J' J" and inv: "inverse_on I J a b"
  shows "inverse_on I' J' (\<lambda>i j. a (f i) (g j)) (\<lambda>j i. b (g j) (f i))"
  unfolding inverse_on_def
proof (intro conjI ballI)
  fix i i' assume i: "i \<in> I'" "i' \<in> I'"
  then have fi: "f i \<in> I" "f i' \<in> I" using f by (auto simp: bij_betw_def)
  have eq: "f i = f i' \<longleftrightarrow> i = i'" using f i by (auto simp: bij_betw_def inj_on_def)
  have "(\<Sum>j\<in>J'. a (f i) (g j) * b (g j) (f i')) = (\<Sum>j\<in>J. a (f i) j * b j (f i'))"
    by (rule sum.reindex_bij_betw[OF g])
  also have "\<dots> = (if f i = f i' then 1 else 0)" using inv fi by (simp add: inverse_on_def)
  finally show "(\<Sum>j\<in>J'. a (f i) (g j) * b (g j) (f i')) = (if i = i' then 1 else 0)"
    by (simp add: eq)
next
  fix j j' assume j: "j \<in> J'" "j' \<in> J'"
  then have gj: "g j \<in> J" "g j' \<in> J" using g by (auto simp: bij_betw_def)
  have eq: "g j = g j' \<longleftrightarrow> j = j'" using g j by (auto simp: bij_betw_def inj_on_def)
  have "(\<Sum>i\<in>I'. b (g j) (f i) * a (f i) (g j')) = (\<Sum>i\<in>I. b (g j) i * a i (g j'))"
    by (rule sum.reindex_bij_betw[OF f])
  also have "\<dots> = (if g j = g j' then 1 else 0)" using inv gj by (simp add: inverse_on_def)
  finally show "(\<Sum>i\<in>I'. b (g j) (f i) * a (f i) (g j')) = (if j = j' then 1 else 0)"
    by (simp add: eq)
qed

lemma inverse_on_scale:
  assumes c: "\<And>j. j \<in> J \<Longrightarrow> c j \<noteq> 0" and inv: "inverse_on I J a b"
  shows "inverse_on I J (\<lambda>i j. a i j * c j) (\<lambda>j i. b j i / c j)"
  unfolding inverse_on_def
proof (intro conjI ballI)
  fix i i' assume i: "i \<in> I" "i' \<in> I"
  have "(\<Sum>j\<in>J. a i j * c j * (b j i' / c j)) = (\<Sum>j\<in>J. a i j * b j i')"
    by (rule sum.cong) (simp_all add: c)
  then show "(\<Sum>j\<in>J. a i j * c j * (b j i' / c j)) = (if i = i' then 1 else 0)"
    using inv i by (simp add: inverse_on_def)
next
  fix j j' assume j: "j \<in> J" "j' \<in> J"
  have "(\<Sum>i\<in>I. b j i / c j * (a i j' * c j')) = (c j' / c j) * (\<Sum>i\<in>I. b j i * a i j')"
    by (simp add: sum_distrib_left field_simps)
  also have "(\<Sum>i\<in>I. b j i * a i j') = (if j = j' then 1 else 0)"
    using inv j by (simp add: inverse_on_def)
  also have "c j' / c j * (if j = j' then 1 else 0) = (if j = j' then 1 else 0)"
    using c[OF j(1)] by auto
  finally show "(\<Sum>i\<in>I. b j i / c j * (a i j' * c j')) = (if j = j' then 1 else 0)" .
qed

lemma inverse_on_classes:
  assumes fin: "finite I" "finite J"
    and zero: "\<And>i j. i \<in> I \<Longrightarrow> j \<in> J \<Longrightarrow> cI i \<noteq> cJ j \<Longrightarrow> a i j = 0"
    and blocks: "\<And>k. inverse_on {i \<in> I. cI i = k} {j \<in> J. cJ j = k} a (bb k)"
  shows "inverse_on I J a (\<lambda>j i. if cI i = cJ j then bb (cJ j) j i else 0)"
  unfolding inverse_on_def
proof (intro conjI ballI)
  fix i i' assume i: "i \<in> I" "i' \<in> I"
  have "(\<Sum>j\<in>J. a i j * (if cI i' = cJ j then bb (cJ j) j i' else 0))
      = (\<Sum>j\<in>J. if cJ j = cI i then (if cI i' = cI i then a i j * bb (cI i) j i' else 0) else 0)"
  proof (rule sum.cong)
    fix j assume "j \<in> J"
    then show "a i j * (if cI i' = cJ j then bb (cJ j) j i' else 0)
      = (if cJ j = cI i then (if cI i' = cI i then a i j * bb (cI i) j i' else 0) else 0)"
      using zero[OF i(1), of j] by auto
  qed simp
  also have "\<dots> = (\<Sum>j\<in>{j \<in> J. cJ j = cI i}. if cI i' = cI i then a i j * bb (cI i) j i' else 0)"
    using fin(2) by (simp add: sum.inter_filter)
  also have "\<dots> = (if cI i' = cI i then (\<Sum>j\<in>{j \<in> J. cJ j = cI i}. a i j * bb (cI i) j i') else 0)"
    by simp
  also have "\<dots> = (if i = i' then 1 else 0)"
  proof (cases "cI i' = cI i")
    case True
    then have "i \<in> {i \<in> I. cI i = cI i}" "i' \<in> {i' \<in> I. cI i' = cI i}" using i by simp_all
    then show ?thesis using blocks[of "cI i"] True unfolding inverse_on_def by simp
  next
    case False
    then show ?thesis by auto
  qed
  finally show "(\<Sum>j\<in>J. a i j * (if cI i' = cJ j then bb (cJ j) j i' else 0)) = (if i = i' then 1 else 0)" .
next
  fix j j' assume j: "j \<in> J" "j' \<in> J"
  have "(\<Sum>i\<in>I. (if cI i = cJ j then bb (cJ j) j i else 0) * a i j')
      = (\<Sum>i\<in>I. if cI i = cJ j then (if cJ j' = cJ j then bb (cJ j) j i * a i j' else 0) else 0)"
  proof (rule sum.cong)
    fix i assume "i \<in> I"
    then show "(if cI i = cJ j then bb (cJ j) j i else 0) * a i j'
      = (if cI i = cJ j then (if cJ j' = cJ j then bb (cJ j) j i * a i j' else 0) else 0)"
      using zero[OF _ j(2), of i] by auto
  qed simp
  also have "\<dots> = (\<Sum>i\<in>{i \<in> I. cI i = cJ j}. if cJ j' = cJ j then bb (cJ j) j i * a i j' else 0)"
    using fin(1) by (simp add: sum.inter_filter)
  also have "\<dots> = (if cJ j' = cJ j then (\<Sum>i\<in>{i \<in> I. cI i = cJ j}. bb (cJ j) j i * a i j') else 0)"
    by simp
  also have "\<dots> = (if j = j' then 1 else 0)"
  proof (cases "cJ j' = cJ j")
    case True
    then have "j \<in> {j \<in> J. cJ j = cJ j}" "j' \<in> {j' \<in> J. cJ j' = cJ j}" using j by simp_all
    then show ?thesis using blocks[of "cJ j"] True unfolding inverse_on_def by simp
  next
    case False
    then show ?thesis by auto
  qed
  finally show "(\<Sum>i\<in>I. (if cI i = cJ j then bb (cJ j) j i else 0) * a i j') = (if j = j' then 1 else 0)" .
qed

lemma inverse_on_product:
  assumes fin: "finite K"
    and 1: "inverse_on I K a a'" and 2: "inverse_on K J c c'"
  shows "inverse_on I J (\<lambda>i j. \<Sum>k\<in>K. a i k * c k j) (\<lambda>j i. \<Sum>k\<in>K. c' j k * a' k i)"
  unfolding inverse_on_def
proof (intro conjI ballI)
  fix i i' assume i: "i \<in> I" "i' \<in> I"
  have "(\<Sum>j\<in>J. (\<Sum>k\<in>K. a i k * c k j) * (\<Sum>k'\<in>K. c' j k' * a' k' i'))
      = (\<Sum>j\<in>J. \<Sum>k\<in>K. \<Sum>k'\<in>K. a i k * ((c k j * c' j k') * a' k' i'))"
    by (simp add: sum_product mult.assoc)
  also have "\<dots> = (\<Sum>k\<in>K. \<Sum>j\<in>J. \<Sum>k'\<in>K. a i k * ((c k j * c' j k') * a' k' i'))"
    by (rule sum.swap)
  also have "\<dots> = (\<Sum>k\<in>K. \<Sum>k'\<in>K. \<Sum>j\<in>J. a i k * ((c k j * c' j k') * a' k' i'))"
    by (intro sum.cong refl sum.swap)
  also have "\<dots> = (\<Sum>k\<in>K. \<Sum>k'\<in>K. a i k * ((\<Sum>j\<in>J. c k j * c' j k') * a' k' i'))"
    by (simp add: sum_distrib_left sum_distrib_right)
  also have "\<dots> = (\<Sum>k\<in>K. \<Sum>k'\<in>K. a i k * ((if k = k' then 1 else 0) * a' k' i'))"
    using 2 by (intro sum.cong refl) (simp add: inverse_on_def)
  also have "\<dots> = (\<Sum>k\<in>K. \<Sum>k'\<in>K. if k' = k then a i k * a' k i' else 0)"
    by (intro sum.cong refl) auto
  also have "\<dots> = (\<Sum>k\<in>K. a i k * a' k i')" using fin by (simp add: sum.delta)
  also have "\<dots> = (if i = i' then 1 else 0)" using 1 i by (simp add: inverse_on_def)
  finally show "(\<Sum>j\<in>J. (\<Sum>k\<in>K. a i k * c k j) * (\<Sum>k'\<in>K. c' j k' * a' k' i')) = (if i = i' then 1 else 0)" .
next
  fix j j' assume j: "j \<in> J" "j' \<in> J"
  have "(\<Sum>i\<in>I. (\<Sum>k\<in>K. c' j k * a' k i) * (\<Sum>k'\<in>K. a i k' * c k' j'))
      = (\<Sum>i\<in>I. \<Sum>k\<in>K. \<Sum>k'\<in>K. c' j k * ((a' k i * a i k') * c k' j'))"
    by (simp add: sum_product mult.assoc)
  also have "\<dots> = (\<Sum>k\<in>K. \<Sum>i\<in>I. \<Sum>k'\<in>K. c' j k * ((a' k i * a i k') * c k' j'))"
    by (rule sum.swap)
  also have "\<dots> = (\<Sum>k\<in>K. \<Sum>k'\<in>K. \<Sum>i\<in>I. c' j k * ((a' k i * a i k') * c k' j'))"
    by (intro sum.cong refl sum.swap)
  also have "\<dots> = (\<Sum>k\<in>K. \<Sum>k'\<in>K. c' j k * ((\<Sum>i\<in>I. a' k i * a i k') * c k' j'))"
    by (simp add: sum_distrib_left sum_distrib_right)
  also have "\<dots> = (\<Sum>k\<in>K. \<Sum>k'\<in>K. c' j k * ((if k = k' then 1 else 0) * c k' j'))"
    using 1 by (intro sum.cong refl) (simp add: inverse_on_def)
  also have "\<dots> = (\<Sum>k\<in>K. \<Sum>k'\<in>K. if k' = k then c' j k * c k j' else 0)"
    by (intro sum.cong refl) auto
  also have "\<dots> = (\<Sum>k\<in>K. c' j k * c k j')" using fin by (simp add: sum.delta)
  also have "\<dots> = (if j = j' then 1 else 0)" using 2 j by (simp add: inverse_on_def)
  finally show "(\<Sum>i\<in>I. (\<Sum>k\<in>K. c' j k * a' k i) * (\<Sum>k'\<in>K. a i k' * c k' j')) = (if j = j' then 1 else 0)" .
qed

lemma inverse_on_block:
  assumes fin: "finite I1" "finite I2" "finite J1" "finite J2"
    and dis: "I1 \<inter> I2 = {}" "J1 \<inter> J2 = {}"
    and zero: "\<And>i j. i \<in> I2 \<Longrightarrow> j \<in> J1 \<Longrightarrow> a i j = 0"
    and 1: "inverse_on I1 J1 a b1" and 2: "inverse_on I2 J2 a b2"
  shows "\<exists>b. inverse_on (I1 \<union> I2) (J1 \<union> J2) a b"
proof -
  define u where "u j i = (\<Sum>i'\<in>I1. \<Sum>j'\<in>J2. b1 j i' * (a i' j' * b2 j' i))" for j i
  define b where "b j i = (if j \<in> J1 then (if i \<in> I1 then b1 j i else - u j i)
                           else (if i \<in> I1 then 0 else b2 j i))" for j i
  have ab1: "(\<Sum>j\<in>J1. a i j * b1 j i') = (if i = i' then 1 else 0)" if "i \<in> I1" "i' \<in> I1" for i i'
    using 1 that by (simp add: inverse_on_def)
  have ba1: "(\<Sum>i\<in>I1. b1 j i * a i j') = (if j = j' then 1 else 0)" if "j \<in> J1" "j' \<in> J1" for j j'
    using 1 that by (simp add: inverse_on_def)
  have ab2: "(\<Sum>j\<in>J2. a i j * b2 j i') = (if i = i' then 1 else 0)" if "i \<in> I2" "i' \<in> I2" for i i'
    using 2 that by (simp add: inverse_on_def)
  have ba2: "(\<Sum>i\<in>I2. b2 j i * a i j') = (if j = j' then 1 else 0)" if "j \<in> J2" "j' \<in> J2" for j j'
    using 2 that by (simp add: inverse_on_def)
  have splitJ: "(\<Sum>j\<in>J1 \<union> J2. f j) = (\<Sum>j\<in>J1. f j) + (\<Sum>j\<in>J2. f j)" for f :: "'b \<Rightarrow> real"
    using fin dis by (simp add: sum.union_disjoint)
  have splitI: "(\<Sum>i\<in>I1 \<union> I2. f i) = (\<Sum>i\<in>I1. f i) + (\<Sum>i\<in>I2. f i)" for f :: "'a \<Rightarrow> real"
    using fin dis by (simp add: sum.union_disjoint)
  have bJ1: "(\<Sum>j\<in>J1. a i j * b j i') = (\<Sum>j\<in>J1. a i j * (if i' \<in> I1 then b1 j i' else - u j i'))" for i i'
    by (rule sum.cong) (simp_all add: b_def)
  have bJ2: "(\<Sum>j\<in>J2. a i j * b j i') = (\<Sum>j\<in>J2. a i j * (if i' \<in> I1 then 0 else b2 j i'))" for i i'
    using dis by (intro sum.cong refl) (auto simp: b_def)
  have bI1: "(\<Sum>i\<in>I1. b j i * a i j') = (\<Sum>i\<in>I1. (if j \<in> J1 then b1 j i else 0) * a i j')" for j j'
    by (rule sum.cong) (simp_all add: b_def)
  have bI2: "(\<Sum>i\<in>I2. b j i * a i j') = (\<Sum>i\<in>I2. (if j \<in> J1 then - u j i else b2 j i) * a i j')" for j j'
    using dis by (intro sum.cong refl) (auto simp: b_def)
  have au: "(\<Sum>j\<in>J1. a i j * u j i') = (\<Sum>j'\<in>J2. a i j' * b2 j' i')" if i: "i \<in> I1" for i i'
  proof -
    have "(\<Sum>j\<in>J1. a i j * u j i') = (\<Sum>j\<in>J1. \<Sum>i''\<in>I1. \<Sum>j'\<in>J2. (a i j * b1 j i'') * (a i'' j' * b2 j' i'))"
      by (simp add: u_def sum_distrib_left mult.assoc)
    also have "\<dots> = (\<Sum>i''\<in>I1. \<Sum>j\<in>J1. \<Sum>j'\<in>J2. (a i j * b1 j i'') * (a i'' j' * b2 j' i'))"
      by (rule sum.swap)
    also have "\<dots> = (\<Sum>i''\<in>I1. (\<Sum>j\<in>J1. a i j * b1 j i'') * (\<Sum>j'\<in>J2. a i'' j' * b2 j' i'))"
      by (simp add: sum_product)
    also have "\<dots> = (\<Sum>i''\<in>I1. (if i = i'' then 1 else 0) * (\<Sum>j'\<in>J2. a i'' j' * b2 j' i'))"
      using i by (intro sum.cong refl) (simp add: ab1)
    also have "\<dots> = (\<Sum>i''\<in>I1. if i'' = i then (\<Sum>j'\<in>J2. a i j' * b2 j' i') else 0)"
      by (intro sum.cong refl) auto
    also have "\<dots> = (\<Sum>j'\<in>J2. a i j' * b2 j' i')" using fin(1) i by (simp add: sum.delta)
    finally show ?thesis .
  qed
  have ua: "(\<Sum>i\<in>I2. u j i * a i j') = (\<Sum>i'\<in>I1. b1 j i' * a i' j')" if j': "j' \<in> J2" for j j'
  proof -
    have "(\<Sum>i\<in>I2. u j i * a i j') = (\<Sum>i\<in>I2. \<Sum>i'\<in>I1. \<Sum>j''\<in>J2. (b1 j i' * a i' j'') * (b2 j'' i * a i j'))"
      by (simp add: u_def sum_distrib_right mult.assoc)
    also have "\<dots> = (\<Sum>i'\<in>I1. \<Sum>i\<in>I2. \<Sum>j''\<in>J2. (b1 j i' * a i' j'') * (b2 j'' i * a i j'))"
      by (rule sum.swap)
    also have "\<dots> = (\<Sum>i'\<in>I1. \<Sum>j''\<in>J2. \<Sum>i\<in>I2. (b1 j i' * a i' j'') * (b2 j'' i * a i j'))"
      by (intro sum.cong refl sum.swap)
    also have "\<dots> = (\<Sum>i'\<in>I1. \<Sum>j''\<in>J2. (b1 j i' * a i' j'') * (\<Sum>i\<in>I2. b2 j'' i * a i j'))"
      by (simp add: sum_distrib_left)
    also have "\<dots> = (\<Sum>i'\<in>I1. \<Sum>j''\<in>J2. (b1 j i' * a i' j'') * (if j'' = j' then 1 else 0))"
      using j' by (intro sum.cong refl) (simp add: ba2)
    also have "\<dots> = (\<Sum>i'\<in>I1. \<Sum>j''\<in>J2. if j'' = j' then b1 j i' * a i' j' else 0)"
      by (intro sum.cong refl) auto
    also have "\<dots> = (\<Sum>i'\<in>I1. b1 j i' * a i' j')" using fin(4) j' by (simp add: sum.delta)
    finally show ?thesis .
  qed
  have A: "(\<Sum>j\<in>J1 \<union> J2. a i j * b j i') = (if i = i' then 1 else 0)"
    if i: "i \<in> I1 \<union> I2" and i': "i' \<in> I1 \<union> I2" for i i'
  proof (cases "i \<in> I1")
    case iT: True
    show ?thesis
    proof (cases "i' \<in> I1")
      case True
      then show ?thesis by (simp add: splitJ bJ1 bJ2 ab1 iT)
    next
      case False
      then have "i' \<in> I2" "i \<noteq> i'" using i' iT by auto
      then show ?thesis using False by (simp add: splitJ bJ1 bJ2 sum_negf au[OF iT])
    qed
  next
    case iF: False
    then have i2: "i \<in> I2" using i by simp
    have z: "(\<Sum>j\<in>J1. a i j * b j i') = 0" by (rule sum.neutral) (simp add: zero[OF i2])
    show ?thesis
    proof (cases "i' \<in> I1")
      case True
      then have "i \<noteq> i'" using iF by auto
      then show ?thesis using True by (simp add: splitJ z bJ2)
    next
      case False
      then have "i' \<in> I2" using i' by simp
      then show ?thesis using False by (simp add: splitJ z bJ2 ab2 i2)
    qed
  qed
  have B: "(\<Sum>i\<in>I1 \<union> I2. b j i * a i j') = (if j = j' then 1 else 0)"
    if j: "j \<in> J1 \<union> J2" and j': "j' \<in> J1 \<union> J2" for j j'
  proof (cases "j' \<in> J1")
    case jT: True
    have z: "(\<Sum>i\<in>I2. b j i * a i j') = 0" by (rule sum.neutral) (simp add: zero[OF _ jT])
    show ?thesis
    proof (cases "j \<in> J1")
      case True
      then show ?thesis by (simp add: splitI bI1 z ba1 jT)
    next
      case False
      then have "j \<noteq> j'" using jT by auto
      then show ?thesis using False by (simp add: splitI bI1 z)
    qed
  next
    case jF: False
    then have j2: "j' \<in> J2" using j' by simp
    show ?thesis
    proof (cases "j \<in> J1")
      case True
      then have "j \<noteq> j'" using jF by auto
      then show ?thesis using True by (simp add: splitI bI1 bI2 sum_negf ua[OF j2])
    next
      case False
      then have "j \<in> J2" using j by simp
      then show ?thesis using False by (simp add: splitI bI1 bI2 ba2 j2)
    qed
  qed
  show ?thesis unfolding inverse_on_def using A B by blast
qed

lemma triangular_invertible:
  "(\<forall>i<n::nat. a i i \<noteq> 0) \<Longrightarrow> (\<forall>i<n. \<forall>j<i. a i j = 0) \<Longrightarrow> \<exists>b. inverse_on {..<n} {..<n} a b"
proof (induction n)
  case 0
  show ?case by (simp add: inverse_on_empty)
next
  case (Suc n)
  obtain b1 where b1: "inverse_on {..<n} {..<n} a b1" using Suc by auto
  have b2: "inverse_on {n} {n} a (\<lambda>j i. 1 / a n n)"
    using Suc.prems(1) by (simp add: inverse_on_def)
  have "\<exists>b. inverse_on ({..<n} \<union> {n}) ({..<n} \<union> {n}) a b"
  proof (rule inverse_on_block[OF _ _ _ _ _ _ _ b1 b2])
    show "\<And>i j. i \<in> {n} \<Longrightarrow> j \<in> {..<n} \<Longrightarrow> a i j = 0" using Suc.prems(2) by simp
  qed simp_all
  moreover have "{..<n} \<union> {n} = {..<Suc n}" by auto
  ultimately show ?case by simp
qed

subsection \<open>The leading block\<close>

lemma alternating_binomial:
  "(\<Sum>b\<le>a. (- 1) ^ (a + b) * real (a choose b) * real ((b + s) choose t))
     = (if a \<le> t then real (s choose (t - a)) else 0)"
proof (induction a arbitrary: s t)
  case 0
  show ?case by simp
next
  case (Suc a)
  define h where "h s b = (- 1) ^ (a + b) * real (a choose b) * real ((b + s) choose t)" for s b
  have F: "(\<Sum>b\<le>a. h s b) = (if a \<le> t then real (s choose (t - a)) else 0)" for s
    unfolding h_def by (rule Suc.IH)
  have shift: "(\<Sum>b\<le>a. h s (Suc b)) = (\<Sum>b\<le>a. h s b) - h s 0" for s
  proof -
    have "(\<Sum>b\<le>Suc a. h s b) = h s 0 + (\<Sum>b\<le>a. h s (Suc b))" by (rule sum.atMost_Suc_shift)
    moreover have "(\<Sum>b\<le>Suc a. h s b) = (\<Sum>b\<le>a. h s b) + h s (Suc a)" by simp
    moreover have "h s (Suc a) = 0" by (simp add: h_def)
    ultimately show ?thesis by simp
  qed
  have "(\<Sum>b\<le>Suc a. (- 1) ^ (Suc a + b) * real (Suc a choose b) * real ((b + s) choose t))
      = (- 1) ^ Suc a * real (s choose t)
        + (\<Sum>b\<le>a. (- 1) ^ (Suc a + Suc b) * real (Suc a choose Suc b) * real ((Suc b + s) choose t))"
    by (subst sum.atMost_Suc_shift) simp
  also have "(\<Sum>b\<le>a. (- 1) ^ (Suc a + Suc b) * real (Suc a choose Suc b) * real ((Suc b + s) choose t))
      = (\<Sum>b\<le>a. h (Suc s) b - h s (Suc b))"
    by (intro sum.cong refl) (simp add: h_def algebra_simps)
  also have "\<dots> = (\<Sum>b\<le>a. h (Suc s) b) - ((\<Sum>b\<le>a. h s b) - h s 0)"
    by (simp add: sum_subtractf shift)
  also have "h s 0 = (- 1) ^ a * real (s choose t)" by (simp add: h_def)
  finally have "(\<Sum>b\<le>Suc a. (- 1) ^ (Suc a + b) * real (Suc a choose b) * real ((b + s) choose t))
      = (\<Sum>b\<le>a. h (Suc s) b) - (\<Sum>b\<le>a. h s b)" by simp
  also have "\<dots> = (if Suc a \<le> t then real (s choose (t - Suc a)) else 0)"
  proof (cases "a \<le> t")
    case False
    then show ?thesis by (simp add: F)
  next
    case True
    show ?thesis
    proof (cases "t - a")
      case 0
      then show ?thesis using True by (simp add: F)
    next
      case (Suc k)
      then have "t - Suc a = k" "Suc a \<le> t" by simp_all
      then show ?thesis using True Suc by (simp add: F)
    qed
  qed
  finally show ?case .
qed

lemma top_block_invertible:
  fixes d o' n :: nat
  assumes o': "o' \<le> 1" and n: "n = (d + 2 - o') div 2"
  shows "\<exists>b. inverse_on {..<n} {..<n}
           (\<lambda>t s. \<Sum>a<n. real ((d - 2 * s) choose (2 * a + o'))
                      * ((- 1) ^ a * (if a \<le> t then real (s choose (t - a)) else 0))) b"
proof -
  define g where "g s a = real ((d - 2 * s) choose (2 * a + o'))" for s a
  define G where "G t s = (\<Sum>a<n. g s a * ((- 1) ^ a * (if a \<le> t then real (s choose (t - a)) else 0)))" for t s
  define T' where "T' b s = (- 1) ^ b * (\<Sum>a<n. g s a * real (a choose b))" for b s
  define T where "T k s = (if s \<le> k then T' (k - s) s else 0)" for k s
  define P where "P t k = real (k choose t)" for t k :: nat
  have n2: "d + 1 \<le> 2 * n + o'" using n o' by linarith
  have range: "2 * s + o' \<le> d" if "s < n" for s using that n o' by linarith
  have step1: "G t s = (\<Sum>b<n. P t (b + s) * T' b s)" for t s
  proof -
    have "G t s = (\<Sum>a<n. g s a * (\<Sum>b\<le>a. (- 1) ^ b * real (a choose b) * real ((b + s) choose t)))"
      unfolding G_def
    proof (rule sum.cong[OF refl], rule arg_cong[where f="\<lambda>x. g s _ * x"])
      fix a
      have "(- 1) ^ a * (if a \<le> t then real (s choose (t - a)) else 0)
          = (- 1) ^ a * (\<Sum>b\<le>a. (- 1) ^ (a + b) * real (a choose b) * real ((b + s) choose t))"
        by (simp only: alternating_binomial)
      also have "\<dots> = (\<Sum>b\<le>a. (- 1) ^ a * ((- 1) ^ (a + b) * real (a choose b) * real ((b + s) choose t)))"
        by (simp only: sum_distrib_left)
      also have "\<dots> = (\<Sum>b\<le>a. (- 1) ^ b * real (a choose b) * real ((b + s) choose t))"
        by (intro sum.cong refl) (simp add: power_add)
      finally show "(- 1) ^ a * (if a \<le> t then real (s choose (t - a)) else 0)
          = (\<Sum>b\<le>a. (- 1) ^ b * real (a choose b) * real ((b + s) choose t))" .
    qed
    also have "\<dots> = (\<Sum>a<n. g s a * (\<Sum>b<n. (- 1) ^ b * real (a choose b) * real ((b + s) choose t)))"
    proof (rule sum.cong[OF refl], rule arg_cong[where f="\<lambda>x. g s _ * x"])
      fix a assume "a \<in> {..<n}"
      then have sub: "{..a} \<subseteq> {..<n}" by auto
      show "(\<Sum>b\<le>a. (- 1) ^ b * real (a choose b) * real ((b + s) choose t))
          = (\<Sum>b<n. (- 1) ^ b * real (a choose b) * real ((b + s) choose t))"
        by (rule sum.mono_neutral_left[OF _ sub]) (auto simp: binomial_eq_0)
    qed
    also have "\<dots> = (\<Sum>a<n. \<Sum>b<n. real ((b + s) choose t) * ((- 1) ^ b * (g s a * real (a choose b))))"
      by (simp add: sum_distrib_left mult_ac)
    also have "\<dots> = (\<Sum>b<n. \<Sum>a<n. real ((b + s) choose t) * ((- 1) ^ b * (g s a * real (a choose b))))"
      by (rule sum.swap)
    also have "\<dots> = (\<Sum>b<n. P t (b + s) * T' b s)"
      by (simp add: P_def T'_def sum_distrib_left)
    finally show ?thesis .
  qed
  have T'0: "T' b s = 0" if sn: "s < n" and bs: "n \<le> b + s" for b s
  proof -
    have z: "g s a * real (a choose b) = 0" if "a < n" for a
    proof (cases "a < b")
      case True
      then show ?thesis by (simp add: binomial_eq_0)
    next
      case False
      then have "d + 1 \<le> 2 * a + 2 * s + o'" using bs n2 by linarith
      moreover have "0 < a" using False bs sn by linarith
      ultimately have "d - 2 * s < 2 * a + o'" by linarith
      then show ?thesis by (simp add: g_def binomial_eq_0)
    qed
    have "(\<Sum>a<n. g s a * real (a choose b)) = 0" by (rule sum.neutral) (simp add: z)
    then show ?thesis by (simp add: T'_def)
  qed
  have step2: "(\<Sum>b<n. P t (b + s) * T' b s) = (\<Sum>k<n. P t k * T k s)" if s: "s < n" for t s
  proof -
    have "(\<Sum>k<n. P t k * T k s) = (\<Sum>k<n. if s \<le> k then P t k * T' (k - s) s else 0)"
      by (intro sum.cong refl) (simp add: T_def)
    also have "\<dots> = (\<Sum>k\<in>{k \<in> {..<n}. s \<le> k}. P t k * T' (k - s) s)"
      by (rule sum.inter_filter[symmetric]) simp
    also have "{k \<in> {..<n}. s \<le> k} = {0 + s..<(n - s) + s}" using s by auto
    also have "(\<Sum>k\<in>{0 + s..<(n - s) + s}. P t k * T' (k - s) s) = (\<Sum>b\<in>{0..<n - s}. P t (b + s) * T' b s)"
      by (subst sum.shift_bounds_nat_ivl) simp
    also have "\<dots> = (\<Sum>b\<in>{..<n}. P t (b + s) * T' b s)"
    proof (rule sum.mono_neutral_left)
      show "\<forall>b\<in>{..<n} - {0..<n - s}. P t (b + s) * T' b s = 0"
        using T'0[OF s] by auto
    qed auto
    finally show ?thesis by simp
  qed
  have Pinv: "\<exists>b. inverse_on {..<n} {..<n} P b"
    by (rule triangular_invertible) (simp_all add: P_def binomial_eq_0)
  have diag: "T s s \<noteq> 0" if s: "s < n" for s
  proof -
    have "0 < (\<Sum>a<n. g s a * real (a choose 0))"
    proof (rule sum_pos2[where i=0])
      show "0 \<in> {..<n}" using s by simp
      have "0 < (d - 2 * s) choose o'" using range[OF s] by (simp add: zero_less_binomial_iff)
      then show "0 < g s 0 * real (0 choose 0)" by (simp add: g_def)
    qed (simp_all add: g_def)
    then show ?thesis by (simp add: T_def T'_def)
  qed
  have "\<exists>b. inverse_on {..<n} {..<n} (\<lambda>s k. T k s) b"
    by (rule triangular_invertible) (simp_all add: diag, simp add: T_def)
  then obtain bt where "inverse_on {..<n} {..<n} (\<lambda>s k. T k s) bt" by blast
  then have Tinv: "inverse_on {..<n} {..<n} T (\<lambda>s k. bt k s)"
    using inverse_on_transpose[of "{..<n}" "{..<n}" "\<lambda>s k. T k s" bt] by simp
  obtain bp where bp: "inverse_on {..<n} {..<n} P bp" using Pinv by blast
  have "inverse_on {..<n} {..<n} (\<lambda>t s. \<Sum>k\<in>{..<n}. P t k * T k s) (\<lambda>s t. \<Sum>k\<in>{..<n}. bt k s * bp k t)"
    by (rule inverse_on_product[OF _ bp Tinv]) simp
  then have "inverse_on {..<n} {..<n} G (\<lambda>s t. \<Sum>k\<in>{..<n}. bt k s * bp k t)"
    by (rule inverse_on_cong) (simp add: step1 step2)
  then show ?thesis unfolding G_def g_def by blast
qed

subsection \<open>Coefficients of a harmonic as sums over the loops\<close>

lemma coeff_of_weight: "coeff_of (map the ts) t = sum_list (map (weight t) ts)"
  by (induction ts) (simp_all add: coeff_of_def weight_def)

lemma distinct_range2: "distinct (range2 a b)"
  by (simp add: range2_def distinct_map inj_on_def)

lemma sum_list_range2: "sum_list (map f (range2 a b)) = sum f (set (range2 a b))"
  by (rule sum_list_distinct_conv_sum_set[OF distinct_range2])

lemma sum_list_concat_map:
  "sum_list (map w (concat (map g xs))) = sum_list (map (\<lambda>x. sum_list (map w (g x))) xs)"
  by (induction xs) simp_all

lemma sum_list_concat_range2:
  "sum_list (map w (concat (map g (range2 a b)))) = (\<Sum>x\<in>set (range2 a b). sum_list (map w (g x)))"
  by (simp only: sum_list_concat_map sum_list_range2)

lemma Y_terms_sum:
  "coeff_of (map the (Y_terms l m)) t =
     (\<Sum>j\<in>set (range2 (if m \<ge> 0 then 0 else 1) (\<bar>m\<bar> + 1)).
        loop_sum t l \<bar>m\<bar> (if m \<ge> 0 then 0 else 1) 0 j + loop_sum t l \<bar>m\<bar> (if m \<ge> 0 then 0 else 1) 1 j)"
proof (cases "m \<ge> 0")
  case True
  then show ?thesis
    unfolding coeff_of_weight Y_terms_def loop_sum_def
    by (simp add: sum_list_concat_range2 sum_list_range2 o_def)
next
  case False
  then show ?thesis
    unfolding coeff_of_weight Y_terms_def loop_sum_def
    by (simp add: sum_list_concat_range2 sum_list_range2 o_def)
qed

lemma weight_Y_term:
  assumes "0 \<le> j" "j \<le> mu" "0 \<le> k" "mu + k \<le> l" "even kc" "0 \<le> kc"
  shows "weight t (Y_term s l mu j k p q kc ez)
     = (if (nat (mu - j + p - q), nat (j + q), ez) = t
        then fst (the (Y_term s l mu j k p q kc ez)) else 0)"
proof -
  obtain a where a: "Y_term s l mu j k p q kc ez = Some a" using Y_term_Some[OF assms] by blast
  then have "snd a = (nat (mu - j + p - q), nat (j + q), ez)"
    by (auto simp: Y_term_def split: option.splits)
  then show ?thesis by (simp add: weight_def a)
qed

lemma loop_sum_zero:
  assumes oi: "0 \<le> oi" and ez: "ez = 0 \<or> ez = 1" and j: "j \<in> set (range2 oi (mu + 1))"
    and z: "\<And>k p q. k \<in> set (range2 ez (l - mu + 1)) \<Longrightarrow> p \<in> set (range2 0 (k + 1 - ez))
               \<Longrightarrow> q \<in> set (range2 0 (p + 1))
               \<Longrightarrow> (nat (mu - j + p - q), nat (j + q), nat ez) \<noteq> t
                   \<or> fst (the (Y_term (j + p - oi) l mu j k p q (k - ez) (nat ez))) = 0"
  shows "loop_sum t l mu oi ez j = 0"
  unfolding loop_sum_def
proof (intro sum.neutral ballI)
  fix k p q
  assume k: "k \<in> set (range2 ez (l - mu + 1))" and p: "p \<in> set (range2 0 (k + 1 - ez))"
    and q: "q \<in> set (range2 0 (p + 1))"
  have r: "0 \<le> j" "j \<le> mu" "0 \<le> k" "mu + k \<le> l" "even (k - ez)" "0 \<le> k - ez"
    using j k oi ez by (auto simp: range2_mem)
  show "weight t (Y_term (j + p - oi) l mu j k p q (k - ez) (nat ez)) = 0"
    using z[OF k p q] by (auto simp: weight_Y_term[OF r])
qed

lemma Y_term_fst_zero:
  assumes "0 \<le> j" "j \<le> mu" "0 \<le> k" "mu + k \<le> l" "even kc" "0 \<le> kc"
    and "even (- l + mu + k - 1)"
  shows "fst (the (Y_term s l mu j k p q kc ez)) = 0"
proof -
  have "SB l mu j k = Some 0" using SB_zero[OF assms(1-4) assms(7)] .
  moreover obtain c where "SC p q kc = Some c" using SC_Some[OF assms(5,6)] by blast
  moreover obtain a where "SA l mu = Some a" using SA_Some[of mu l] assms by auto
  ultimately show ?thesis by (simp add: Y_term_def)
qed

lemma coefY_degree:
  assumes "l < int (a + b + e)"
  shows "coeff_of (map the (Y_terms l m)) (a, b, e) = 0"
  unfolding Y_terms_sum
proof (intro sum.neutral ballI)
  fix j assume j: "j \<in> set (range2 (if 0 \<le> m then 0 else 1) (\<bar>m\<bar> + 1))"
  have "loop_sum (a, b, e) l \<bar>m\<bar> (if 0 \<le> m then 0 else 1) ez j = 0" if ez: "ez = 0 \<or> ez = 1" for ez
  proof (rule loop_sum_zero[OF _ ez j])
    fix k p q
    assume k: "k \<in> set (range2 ez (l - \<bar>m\<bar> + 1))" and p: "p \<in> set (range2 0 (k + 1 - ez))"
      and q: "q \<in> set (range2 0 (p + 1))"
    have "int (nat (\<bar>m\<bar> - j + p - q) + nat (j + q) + nat ez) \<le> l"
      using j k p q ez by (auto simp: range2_mem split: if_splits)
    then have "(nat (\<bar>m\<bar> - j + p - q), nat (j + q), nat ez) \<noteq> (a, b, e)" using assms by auto
    then show "(nat (\<bar>m\<bar> - j + p - q), nat (j + q), nat ez) \<noteq> (a, b, e)
        \<or> fst (the (Y_term (j + p - (if 0 \<le> m then 0 else 1)) l \<bar>m\<bar> j k p q (k - ez) (nat ez))) = 0"
      by simp
  qed simp
  then show "loop_sum (a, b, e) l \<bar>m\<bar> (if 0 \<le> m then 0 else 1) 0 j
      + loop_sum (a, b, e) l \<bar>m\<bar> (if 0 \<le> m then 0 else 1) 1 j = 0" by simp
qed

lemma coefY_class:
  assumes "int b mod 2 \<noteq> (if 0 \<le> m then 0 else 1) \<or> int e \<noteq> (l - \<bar>m\<bar>) mod 2"
  shows "coeff_of (map the (Y_terms l m)) (a, b, e) = 0"
  unfolding Y_terms_sum
proof (intro sum.neutral ballI)
  fix j assume j: "j \<in> set (range2 (if 0 \<le> m then 0 else 1) (\<bar>m\<bar> + 1))"
  have "loop_sum (a, b, e) l \<bar>m\<bar> (if 0 \<le> m then 0 else 1) ez j = 0" if ez: "ez = 0 \<or> ez = 1" for ez
  proof (rule loop_sum_zero[OF _ ez j])
    fix k p q
    assume k: "k \<in> set (range2 ez (l - \<bar>m\<bar> + 1))" and p: "p \<in> set (range2 0 (k + 1 - ez))"
      and q: "q \<in> set (range2 0 (p + 1))"
    have r: "0 \<le> j" "j \<le> \<bar>m\<bar>" "0 \<le> k" "\<bar>m\<bar> + k \<le> l" "even (k - ez)" "0 \<le> k - ez"
      using j k ez by (auto simp: range2_mem split: if_splits)
    have jq: "0 \<le> j + q" "(j + q) mod 2 = (if 0 \<le> m then 0 else 1)"
      using j q by (auto simp: range2_mem split: if_splits) presburger+
    show "(nat (\<bar>m\<bar> - j + p - q), nat (j + q), nat ez) \<noteq> (a, b, e)
        \<or> fst (the (Y_term (j + p - (if 0 \<le> m then 0 else 1)) l \<bar>m\<bar> j k p q (k - ez) (nat ez))) = 0"
    proof (cases "(nat (\<bar>m\<bar> - j + p - q), nat (j + q), nat ez) = (a, b, e)")
      case False
      then show ?thesis by simp
    next
      case True
      then have b: "int b = j + q" and e: "int e = ez" using jq(1) ez by auto
      with assms jq(2) have "ez \<noteq> (l - \<bar>m\<bar>) mod 2" by simp
      then have "even (- l + \<bar>m\<bar> + k - 1)" using r(5) ez by presburger
      then show ?thesis using Y_term_fst_zero[OF r] by simp
    qed
  qed simp
  then show "loop_sum (a, b, e) l \<bar>m\<bar> (if 0 \<le> m then 0 else 1) 0 j
      + loop_sum (a, b, e) l \<bar>m\<bar> (if 0 \<le> m then 0 else 1) 1 j = 0" by simp
qed

subsection \<open>The coefficients of top degree\<close>

lemma loop_sum_top:
  assumes oi: "0 \<le> oi" and ez: "ez = 0 \<or> ez = 1" and j: "j \<in> set (range2 oi (mu + 1))"
    and P0: "P0 = l - mu - ez" "0 \<le> P0" "even P0"
    and match: "\<And>k p q. k \<in> set (range2 ez (l - mu + 1)) \<Longrightarrow> p \<in> set (range2 0 (k + 1 - ez))
               \<Longrightarrow> q \<in> set (range2 0 (p + 1))
               \<Longrightarrow> ((nat (mu - j + p - q), nat (j + q), nat ez) = t) = (q = q0 \<and> p = P0)"
  shows "loop_sum t l mu oi ez j =
           (if q0 \<in> set (range2 0 (P0 + 1))
            then fst (the (Y_term (j + P0 - oi) l mu j (l - mu) P0 q0 P0 (nat ez))) else 0)"
proof -
  define F where "F k p q = fst (the (Y_term (j + p - oi) l mu j k p q (k - ez) (nat ez)))" for k p q
  define H where "H k = (if q0 \<in> set (range2 0 (P0 + 1)) then F k P0 q0 else 0)" for k
  have "loop_sum t l mu oi ez j =
      (\<Sum>k\<in>set (range2 ez (l - mu + 1)). \<Sum>p\<in>set (range2 0 (k + 1 - ez)). \<Sum>q\<in>set (range2 0 (p + 1)).
         if q = q0 then (if p = P0 then F k p q else 0) else 0)"
    unfolding loop_sum_def
  proof (intro sum.cong refl)
    fix k p q
    assume k: "k \<in> set (range2 ez (l - mu + 1))" and p: "p \<in> set (range2 0 (k + 1 - ez))"
      and q: "q \<in> set (range2 0 (p + 1))"
    have r: "0 \<le> j" "j \<le> mu" "0 \<le> k" "mu + k \<le> l" "even (k - ez)" "0 \<le> k - ez"
      using j k oi ez by (auto simp: range2_mem)
    show "weight t (Y_term (j + p - oi) l mu j k p q (k - ez) (nat ez))
        = (if q = q0 then (if p = P0 then F k p q else 0) else 0)"
      by (simp add: weight_Y_term[OF r] match[OF k p q] F_def)
  qed
  also have "\<dots> = (\<Sum>k\<in>set (range2 ez (l - mu + 1)). \<Sum>p\<in>set (range2 0 (k + 1 - ez)).
         if q0 \<in> set (range2 0 (p + 1)) then (if p = P0 then F k p q0 else 0) else 0)"
    by (simp add: sum.delta)
  also have "\<dots> = (\<Sum>k\<in>set (range2 ez (l - mu + 1)). \<Sum>p\<in>set (range2 0 (k + 1 - ez)).
         if p = P0 then H k else 0)"
    by (intro sum.cong refl) (simp add: H_def)
  also have "\<dots> = (\<Sum>k\<in>set (range2 ez (l - mu + 1)). if P0 \<in> set (range2 0 (k + 1 - ez)) then H k else 0)"
    by (simp add: sum.delta)
  also have "\<dots> = (\<Sum>k\<in>set (range2 ez (l - mu + 1)). if k = l - mu then H (l - mu) else 0)"
  proof (intro sum.cong refl)
    fix k assume k: "k \<in> set (range2 ez (l - mu + 1))"
    then have "P0 \<in> set (range2 0 (k + 1 - ez)) \<longleftrightarrow> k = l - mu"
      using P0 by (auto simp: range2_mem)
    then show "(if P0 \<in> set (range2 0 (k + 1 - ez)) then H k else 0) = (if k = l - mu then H (l - mu) else 0)"
      by auto
  qed
  also have "\<dots> = (if l - mu \<in> set (range2 ez (l - mu + 1)) then H (l - mu) else 0)"
    by (simp add: sum.delta)
  finally have "loop_sum t l mu oi ez j
      = (if l - mu \<in> set (range2 ez (l - mu + 1)) then H (l - mu) else 0)" .
  moreover have "l - mu \<in> set (range2 ez (l - mu + 1))"
    using P0 ez by (auto simp: range2_mem)
  ultimately show ?thesis using P0(1) by (simp add: H_def F_def)
qed

lemma ratio_top: "0 \<le> l \<Longrightarrow> ratio l mu (l - mu) = Some (gamma_half l / gamma_half 0)"
proof -
  assume "0 \<le> l"
  have "odd (l + mu + (l - mu) - 1)" by presburger
  moreover have "(l + mu + (l - mu) - 1 + 1) div 2 = l" by simp
  moreover have "- l + mu + (l - mu) - 1 = - 1" by simp
  ultimately show ?thesis by (simp add: ratio_def factorial_half_def)
qed

lemma top_factor_nonzero: "0 \<le> mu \<Longrightarrow> mu \<le> l \<Longrightarrow> top_factor l mu \<noteq> 0"
proof -
  assume a: "0 \<le> mu" "mu \<le> l"
  define X where "X = (2 - KroneckerDelta mu 0) * (2 * real_of_int l + 1) * fact (nat (l - mu)) / (4 * pi * fact (nat (l + mu)))"
  have "0 < X" using a by (simp add: X_def KroneckerDelta_def)
  then have "sqrt X \<noteq> 0" by simp
  moreover have "the (SA l mu) = sqrt X" using a by (simp add: SA_Some X_def)
  ultimately have "the (SA l mu) \<noteq> 0" by simp
  moreover have "the (ratio l mu (l - mu)) \<noteq> 0"
    using a by (simp add: ratio_top gamma_half_nonzero)
  ultimately show ?thesis by (simp add: top_factor_def)
qed

lemma Y_term_top_value:
  fixes L M a s u e o' :: nat
  assumes "2 * a + o' \<le> M" "M \<le> L" "u \<le> s" "L - M = 2 * s + e" "e \<le> 1" "o' \<le> 1"
  shows "fst (the (Y_term (int (2 * a + o') + int (2 * s) - int o') (int L) (int M) (int (2 * a + o'))
                    (int L - int M) (int (2 * s)) (int (2 * u)) (int (2 * s)) ez))
       = top_factor (int L) (int M) * ((- 1) ^ a * real (M choose (2 * a + o')) * real (s choose u))"
proof -
  obtain sa where sa: "SA (int L) (int M) = Some sa" using SA_Some[of "int M" "int L"] assms by simp
  have r: "ratio (int L) (int M) (int L - int M) = Some (gamma_half (int L) / gamma_half 0)"
    by (rule ratio_top) simp
  define rv where "rv = gamma_half (int L) / gamma_half 0"
  have fint: "factorial (int k) = Some (fact k)" for k by (simp add: factorial_def)
  have e1: "int L - int M = int (L - M)" using assms(2) by simp
  have e2: "int M - int (2 * a + o') = int (M - (2 * a + o'))" using assms(1) by linarith
  have e3: "int L - int M - (int L - int M) = int 0" by simp
  have sb: "SB (int L) (int M) (int (2 * a + o')) (int L - int M)
      = Some (2 ^ L * (fact M / (fact (2 * a + o') * fact (L - M) * fact (M - (2 * a + o')))) * rv)"
    unfolding SB_def r e3 unfolding e1 e2 fint by (simp add: rv_def)
  have h: "factorial_half (int (2 * k)) = Some (fact k)" for k
    by (simp add: factorial_half_def factorial_def)
  have k0: "int (2 * s) - int (2 * s) = int (2 * 0)" by simp
  have k1: "int (2 * s) - int (2 * u) = int (2 * (s - u))" using assms(3) by linarith
  have sc: "SC (int (2 * s)) (int (2 * u)) (int (2 * s)) = Some (fact s / (fact u * fact (s - u)))"
    unfolding SC_def k0 k1 h by simp
  have sg: "nat ((int (2 * a + o') + int (2 * s) - int o') div 2) = a + s" by simp
  have "int (L - M) = 2 * int s + int e" using assms(4) by simp
  then have "int (L - M) div 2 = int s" using assms(5) by linarith
  then have s2: "nat ((int L - int M) div 2) = s" by (simp only: e1 nat_int)
  have s3: "nat (int L - int M) = L - M" by (simp only: e1 nat_int)
  have b1: "real (M choose (2 * a + o')) = fact M / (fact (2 * a + o') * fact (M - (2 * a + o')))"
    using assms(1) by (rule binomial_fact)
  have b2: "real (s choose u) = fact s / (fact u * fact (s - u))"
    using assms(3) by (rule binomial_fact)
  show ?thesis
    unfolding Y_term_def sa sb sc top_factor_def sg s2 s3 b1 b2 r
    by (simp add: rv_def power_add mult_ac)
qed

lemma range2_image: "set (range2 a b) = (\<lambda>i. a + 2 * int i) ` {..<nat ((b - a + 1) div 2)}"
  by (auto simp: range2_def)

lemma sum_range2: "(\<Sum>j\<in>set (range2 a b). f j) = (\<Sum>i<nat ((b - a + 1) div 2). f (a + 2 * int i))"
proof -
  have "inj_on (\<lambda>i. a + 2 * int i) {..<nat ((b - a + 1) div 2)}" by (simp add: inj_on_def)
  then show ?thesis unfolding range2_image by (simp add: sum.reindex)
qed

lemma top_coefficient:
  fixes L e o' s tau n :: nat
  assumes e: "e \<le> 1" "e \<le> L" and o': "o' \<le> 1"
    and n: "n = (L - e + 2 - o') div 2" and s: "s < n" and tau: "tau < n"
  shows "coeff_of (map the (Y_terms (int L) (if o' = 0 then int (L - e - 2 * s) else - int (L - e - 2 * s))))
           (L - e - 2 * tau - o', 2 * tau + o', e)
     = (\<Sum>a<n. real ((L - e - 2 * s) choose (2 * a + o'))
                * ((- 1) ^ a * (if a \<le> tau then real (s choose (tau - a)) else 0)))
       * top_factor (int L) (int (L - e - 2 * s))"
proof -
  define d where "d = L - e"
  define M where "M = d - 2 * s"
  define m where "m = (if o' = 0 then int M else - int M)"
  define t where "t = (d - 2 * tau - o', 2 * tau + o', e)"
  define tf where "tf = top_factor (int L) (int M)"
  have ds: "2 * s + o' \<le> d" and dt: "2 * tau + o' \<le> d"
    using s tau n o' unfolding d_def by linarith+
  have Mb: "M \<le> L" "L - M = 2 * s + e" "2 * s + M = d" "d + e = L"
    using ds e unfolding M_def d_def by linarith+
  have M1: "o' = 1 \<Longrightarrow> 1 \<le> M" using ds unfolding M_def by linarith
  have am: "\<bar>m\<bar> = int M" by (simp add: m_def)
  have om: "(if 0 \<le> m then 0 else 1) = int o'" using o' M1 by (cases "o' = 0") (auto simp: m_def)
  have lm: "int L - int M - int e = int (2 * s)" using Mb by linarith
  define Nj where "Nj = nat ((int M + 1 - int o' + 1) div 2)"
  have Nj: "Nj \<le> n" "\<And>a. a < Nj \<Longrightarrow> 2 * a + o' \<le> M" "\<And>a. Nj \<le> a \<Longrightarrow> M < 2 * a + o'"
    using Mb ds o' n unfolding Nj_def d_def by linarith+
  have summand: "loop_sum t (int L) (int M) (int o') 0 (int o' + 2 * int a) + loop_sum t (int L) (int M) (int o') 1 (int o' + 2 * int a)
      = tf * (real (M choose (2 * a + o')) * ((- 1) ^ a * (if a \<le> tau then real (s choose (tau - a)) else 0)))"
    if a: "a < Nj" for a
  proof -
    define j where "j = int (2 * a + o')"
    have j': "int o' + 2 * int a = j" by (simp add: j_def)
    have aM: "2 * a + o' \<le> M" using Nj(2)[OF a] .
    have j: "j \<in> set (range2 (int o') (int M + 1))"
      using aM by (simp add: range2_mem j_def)
    have other: "loop_sum t (int L) (int M) (int o') ez j = 0" if ez: "ez = 0 \<or> ez = 1" "ez \<noteq> int e" for ez
    proof (rule loop_sum_zero[OF _ ez(1) j])
      fix k p q
      have "nat ez \<noteq> e" using ez by auto
      then show "(nat (int M - j + p - q), nat (j + q), nat ez) \<noteq> t
          \<or> fst (the (Y_term (j + p - int o') (int L) (int M) j k p q (k - ez) (nat ez))) = 0"
        by (simp add: t_def)
    qed simp
    have ee: "int e = 0 \<or> int e = 1" using e by linarith
    define q0 where "q0 = int (2 * tau + o') - j"
    have main: "loop_sum t (int L) (int M) (int o') (int e) j =
           (if q0 \<in> set (range2 0 (int (2 * s) + 1))
            then fst (the (Y_term (j + int (2 * s) - int o') (int L) (int M) j (int L - int M) (int (2 * s)) q0 (int (2 * s)) (nat (int e)))) else 0)"
    proof (rule loop_sum_top[OF _ ee j])
      show "int (2 * s) = int L - int M - int e" using lm by simp
      show "0 \<le> int (2 * s)" by simp
      show "even (int (2 * s))" by simp
    next
      fix k p q
      assume k: "k \<in> set (range2 (int e) (int L - int M + 1))"
        and p: "p \<in> set (range2 0 (k + 1 - int e))" and q: "q \<in> set (range2 0 (p + 1))"
      have r: "0 \<le> q" "q \<le> p" "0 \<le> j" "j \<le> int M" using p q j by (auto simp: range2_mem)
      have "(nat (int M - j + p - q), nat (j + q), nat (int e)) = t
          \<longleftrightarrow> int M - j + p - q = int (d - 2 * tau - o') \<and> j + q = int (2 * tau + o')"
        using r by (auto simp: t_def)
      also have "\<dots> \<longleftrightarrow> q = q0 \<and> p = int (2 * s)"
        using dt Mb(3) unfolding q0_def by linarith
      finally show "((nat (int M - j + p - q), nat (j + q), nat (int e)) = t) = (q = q0 \<and> p = int (2 * s))" .
    qed simp
    have q0mem: "q0 \<in> set (range2 0 (int (2 * s) + 1)) \<longleftrightarrow> a \<le> tau \<and> tau - a \<le> s"
      unfolding q0_def j_def range2_mem by (auto simp: algebra_simps)
    have val: "fst (the (Y_term (j + int (2 * s) - int o') (int L) (int M) j (int L - int M) (int (2 * s)) q0 (int (2 * s)) (nat (int e))))
        = tf * ((- 1) ^ a * real (M choose (2 * a + o')) * real (s choose (tau - a)))"
      if "a \<le> tau" "tau - a \<le> s"
    proof -
      have "q0 = int (2 * (tau - a))" using that unfolding q0_def j_def by linarith
      then show ?thesis
        unfolding j_def tf_def
        using Y_term_top_value[OF aM Mb(1) that(2) Mb(2) e(1) o', of "nat (int e)"] by simp
    qed
    have "loop_sum t (int L) (int M) (int o') 0 j + loop_sum t (int L) (int M) (int o') 1 j
        = loop_sum t (int L) (int M) (int o') (int e) j"
      using other ee by auto
    also have "\<dots> = tf * (real (M choose (2 * a + o')) * ((- 1) ^ a * (if a \<le> tau then real (s choose (tau - a)) else 0)))"
    proof (cases "a \<le> tau \<and> tau - a \<le> s")
      case True
      then show ?thesis using main q0mem val by simp
    next
      case False
      then have "a \<le> tau \<Longrightarrow> s choose (tau - a) = 0" by (simp add: binomial_eq_0)
      then show ?thesis using main q0mem False by auto
    qed
    finally show ?thesis unfolding j' .
  qed
  have "coeff_of (map the (Y_terms (int L) m)) t
      = (\<Sum>a<Nj. loop_sum t (int L) (int M) (int o') 0 (int o' + 2 * int a) + loop_sum t (int L) (int M) (int o') 1 (int o' + 2 * int a))"
    unfolding Y_terms_sum am om sum_range2 Nj_def ..
  also have "\<dots> = (\<Sum>a<Nj. tf * (real (M choose (2 * a + o')) * ((- 1) ^ a * (if a \<le> tau then real (s choose (tau - a)) else 0))))"
    by (intro sum.cong refl) (simp add: summand)
  also have "\<dots> = (\<Sum>a<n. tf * (real (M choose (2 * a + o')) * ((- 1) ^ a * (if a \<le> tau then real (s choose (tau - a)) else 0))))"
  proof (rule sum.mono_neutral_left)
    show "{..<Nj} \<subseteq> {..<n}" using Nj(1) by auto
    show "\<forall>a\<in>{..<n} - {..<Nj}. tf * (real (M choose (2 * a + o')) * ((- 1) ^ a * (if a \<le> tau then real (s choose (tau - a)) else 0))) = 0"
      using Nj(3) by (auto simp: binomial_eq_0)
  qed simp
  also have "\<dots> = (\<Sum>a<n. real (M choose (2 * a + o')) * ((- 1) ^ a * (if a \<le> tau then real (s choose (tau - a)) else 0))) * tf"
    by (simp add: sum_distrib_left mult.commute)
  finally show ?thesis unfolding t_def tf_def M_def d_def m_def .
qed

subsection \<open>From index sets to lists\<close>

lemma inverse_on_image:
  assumes f: "inj_on f I'" and g: "inj_on g J'"
    and inv: "inverse_on I' J' (\<lambda>i j. a (f i) (g j)) b"
  shows "\<exists>b'. inverse_on (f ` I') (g ` J') a b'"
proof -
  have bf: "bij_betw (inv_into I' f) (f ` I') I'"
    using f by (simp add: bij_betw_inv_into inj_on_imp_bij_betw)
  have bg: "bij_betw (inv_into J' g) (g ` J') J'"
    using g by (simp add: bij_betw_inv_into inj_on_imp_bij_betw)
  have "inverse_on (f ` I') (g ` J')
          (\<lambda>i j. a (f (inv_into I' f i)) (g (inv_into J' g j)))
          (\<lambda>j i. b (inv_into J' g j) (inv_into I' f i))"
    by (rule inverse_on_reindex[OF bf bg inv])
  then have "inverse_on (f ` I') (g ` J') a (\<lambda>j i. b (inv_into J' g j) (inv_into I' f i))"
    by (rule inverse_on_cong) (simp add: f_inv_into_f)
  then show ?thesis by blast
qed

lemma mat_mul_nth:
  assumes "square n A" "square n B" "i < n" "j < n"
  shows "mat_mul n A B ! i ! j = (\<Sum>k<n. A ! i ! k * B ! k ! j)"
proof -
  have lA: "length A = n" and lB: "length B = n" using assms by (simp_all add: square_def)
  have "mat_mul n A B ! i ! j = dot (A ! i) (column B j)"
    using assms(3,4) lA by (simp add: mat_mul_def)
  also have "\<dots> = (\<Sum>k<n. A ! i ! k * column B j ! k)"
    using dot_sum[of "A ! i" n "column B j"] square_nth[OF assms(1,3)] lB by (simp add: column_def)
  also have "\<dots> = (\<Sum>k<n. A ! i ! k * B ! k ! j)"
    by (intro sum.cong refl) (simp add: column_def lB)
  finally show ?thesis .
qed

lemma is_inverse_tabulate:
  assumes "inverse_on {..<n} {..<n} a b"
  shows "is_inverse n (map (\<lambda>i. map (a i) [0..<n]) [0..<n]) (map (\<lambda>j. map (b j) [0..<n]) [0..<n])"
proof -
  define A where "A = map (\<lambda>i. map (a i) [0..<n]) [0..<n]"
  define B where "B = map (\<lambda>j. map (b j) [0..<n]) [0..<n]"
  have sA: "square n A" and sB: "square n B"
    by (simp_all add: A_def B_def square_def list_all_iff)
  have eA: "A ! i ! k = a i k" and eB: "B ! i ! k = b i k" if "i < n" "k < n" for i k
    using that by (simp_all add: A_def B_def)
  have AB: "mat_mul n A B = identity n"
  proof (rule nth_equalityI)
    show "length (mat_mul n A B) = length (identity n)" by (simp add: mat_mul_def identity_def A_def)
  next
    fix i assume "i < length (mat_mul n A B)"
    then have i: "i < n" by (simp add: mat_mul_def A_def)
    show "mat_mul n A B ! i = identity n ! i"
    proof (rule nth_equalityI)
      show "length (mat_mul n A B ! i) = length (identity n ! i)"
        using i by (simp add: mat_mul_def identity_def unit_vec_def A_def)
    next
      fix j assume "j < length (mat_mul n A B ! i)"
      then have j: "j < n" using i by (simp add: mat_mul_def A_def)
      have "mat_mul n A B ! i ! j = (\<Sum>k<n. a i k * b k j)"
        using i j by (simp add: mat_mul_nth[OF sA sB] eA eB)
      also have "\<dots> = (if i = j then 1 else 0)" using assms i j by (simp add: inverse_on_def)
      finally show "mat_mul n A B ! i ! j = identity n ! i ! j"
        using i j by (auto simp: identity_def unit_vec_def)
    qed
  qed
  have BA: "mat_mul n B A = identity n"
  proof (rule nth_equalityI)
    show "length (mat_mul n B A) = length (identity n)" by (simp add: mat_mul_def identity_def B_def)
  next
    fix i assume "i < length (mat_mul n B A)"
    then have i: "i < n" by (simp add: mat_mul_def B_def)
    show "mat_mul n B A ! i = identity n ! i"
    proof (rule nth_equalityI)
      show "length (mat_mul n B A ! i) = length (identity n ! i)"
        using i by (simp add: mat_mul_def identity_def unit_vec_def B_def)
    next
      fix j assume "j < length (mat_mul n B A ! i)"
      then have j: "j < n" using i by (simp add: mat_mul_def B_def)
      have "mat_mul n B A ! i ! j = (\<Sum>k<n. b i k * a k j)"
        using i j by (simp add: mat_mul_nth[OF sB sA] eA eB)
      also have "\<dots> = (if i = j then 1 else 0)" using assms i j by (simp add: inverse_on_def)
      finally show "mat_mul n B A ! i ! j = identity n ! i ! j"
        using i j by (auto simp: identity_def unit_vec_def)
    qed
  qed
  show ?thesis unfolding is_inverse_def using sA sB AB BA by (simp add: A_def B_def)
qed

subsection \<open>Classes of monomials and harmonics\<close>

lemma finite_Deg: "finite (Deg L)"
proof -
  have "Deg L \<subseteq> {..L} \<times> {..L} \<times> {..1}" by (auto simp: Deg_def)
  then show ?thesis by (rule finite_subset) simp
qed

lemma finite_Col: "finite (Col L)"
proof -
  have "Col L \<subseteq> {int L} \<times> {- int L..int L}" by (auto simp: Col_def)
  then show ?thesis by (rule finite_subset) simp
qed

lemma class_rows:
  fixes L e o' :: nat
  assumes "e \<le> 1" "e \<le> L" "o' \<le> 1"
  shows "(\<lambda>t. (L - e - 2 * t - o', 2 * t + o', e)) ` {..<(L - e + 2 - o') div 2}
           = {t \<in> Deg L. row_class t = (o', e)}"
proof (intro equalityI subsetI)
  fix x assume "x \<in> (\<lambda>t. (L - e - 2 * t - o', 2 * t + o', e)) ` {..<(L - e + 2 - o') div 2}"
  then obtain t where t: "t < (L - e + 2 - o') div 2" "x = (L - e - 2 * t - o', 2 * t + o', e)" by auto
  have "2 * t + o' \<le> L - e" using t(1) assms by linarith
  then show "x \<in> {t \<in> Deg L. row_class t = (o', e)}"
    using assms by (auto simp: t(2) Deg_def row_class_def)
next
  fix x assume x: "x \<in> {t \<in> Deg L. row_class t = (o', e)}"
  obtain a b e' where xa: "x = (a, b, e')" by (cases x)
  from x have h: "e' = e" "a + b + e = L" "b mod 2 = o'" by (auto simp: xa Deg_def row_class_def)
  define t where "t = b div 2"
  have b: "b = 2 * t + o'" using h(3) mult_div_mod_eq[of 2 b] by (simp add: t_def)
  have "t < (L - e + 2 - o') div 2" using b h(2) assms by linarith
  moreover have "x = (L - e - 2 * t - o', 2 * t + o', e)" using b h by (simp add: xa)
  ultimately show "x \<in> (\<lambda>t. (L - e - 2 * t - o', 2 * t + o', e)) ` {..<(L - e + 2 - o') div 2}"
    by blast
qed

lemma class_cols:
  fixes L e o' :: nat
  assumes "e \<le> 1" "e \<le> L" "o' \<le> 1"
  shows "(\<lambda>s. (int L, if o' = 0 then int (L - e - 2 * s) else - int (L - e - 2 * s))) ` {..<(L - e + 2 - o') div 2}
           = {p \<in> Col L. col_class p = (o', e)}"
proof (intro equalityI subsetI)
  fix x assume "x \<in> (\<lambda>s. (int L, if o' = 0 then int (L - e - 2 * s) else - int (L - e - 2 * s))) ` {..<(L - e + 2 - o') div 2}"
  then obtain s where s: "s < (L - e + 2 - o') div 2"
    "x = (int L, if o' = 0 then int (L - e - 2 * s) else - int (L - e - 2 * s))" by auto
  have r: "2 * s + o' \<le> L - e" using s(1) assms by linarith
  define M where "M = L - e - 2 * s"
  have M: "M \<le> L" "o' \<le> M" "int L - int M = 2 * int s + int e" using r assms unfolding M_def by linarith+
  have "(2 * int s + int e) mod 2 = int e" using assms(1) by presburger
  then have par: "nat ((int L - int M) mod 2) = e" using M(3) by simp
  show "x \<in> {p \<in> Col L. col_class p = (o', e)}"
  proof (cases "o' = 0")
    case True
    then show ?thesis using M par by (simp add: s(2) Col_def col_class_def M_def[symmetric])
  next
    case False
    then have "o' = 1" using assms by simp
    then show ?thesis using M par by (simp add: s(2) Col_def col_class_def M_def[symmetric])
  qed
next
  fix x assume x: "x \<in> {p \<in> Col L. col_class p = (o', e)}"
  obtain l m where xl: "x = (l, m)" by (cases x)
  from x have h: "l = int L" "\<bar>m\<bar> \<le> int L" "(if m < 0 then 1 else 0) = o'" "nat ((int L - \<bar>m\<bar>) mod 2) = e"
    by (auto simp: xl Col_def col_class_def)
  define K where "K = nat (int L - \<bar>m\<bar>)"
  have K: "int K = int L - \<bar>m\<bar>" using h(2) by (simp add: K_def)
  have "nat (int K mod 2) = K mod 2" by (metis nat_int of_nat_mod of_nat_numeral)
  then have Km: "K mod 2 = e" using h(4) K by simp
  define s where "s = K div 2"
  have Ks: "K = 2 * s + e" using mult_div_mod_eq[of 2 K] Km by (simp add: s_def)
  have KL: "K \<le> L" using K by linarith
  have am: "\<bar>m\<bar> = int (L - e - 2 * s)" using K Ks KL by linarith
  have "o' \<le> L - e - 2 * s" using h(3) am by (auto split: if_splits)
  then have "s < (L - e + 2 - o') div 2" using Ks KL assms by linarith
  moreover have "x = (int L, if o' = 0 then int (L - e - 2 * s) else - int (L - e - 2 * s))"
  proof (cases "m < 0")
    case True
    then have "o' = 1" "m = - \<bar>m\<bar>" using h(3) by auto
    then show ?thesis using am by (simp add: xl h(1))
  next
    case False
    then have "o' = 0" "m = \<bar>m\<bar>" using h(3) by auto
    then show ?thesis using am by (simp add: xl h(1))
  qed
  ultimately show "x \<in> (\<lambda>s. (int L, if o' = 0 then int (L - e - 2 * s) else - int (L - e - 2 * s))) ` {..<(L - e + 2 - o') div 2}"
    by blast
qed

subsection \<open>Assembling the blocks\<close>

lemma class_block:
  "\<exists>b. inverse_on {t \<in> Deg L. row_class t = k} {p \<in> Col L. col_class p = k} cf b"
proof -
  obtain o' e where k: "k = (o', e)" by (cases k)
  show ?thesis
  proof (cases "o' \<le> 1 \<and> e \<le> 1 \<and> e \<le> L")
    case True
    then have o': "o' \<le> 1" and e: "e \<le> 1" "e \<le> L" by simp_all
    define n where "n = (L - e + 2 - o') div 2"
    define f where "f t = (L - e - 2 * t - o', 2 * t + o', e)" for t :: nat
    define g where "g s = (int L, if o' = 0 then int (L - e - 2 * s) else - int (L - e - 2 * s))" for s :: nat
    define G where "G t s = (\<Sum>a<n. real ((L - e - 2 * s) choose (2 * a + o'))
                      * ((- 1) ^ a * (if a \<le> t then real (s choose (t - a)) else 0)))" for t s
    define c where "c s = top_factor (int L) (int (L - e - 2 * s))" for s :: nat
    obtain b0 where b0: "inverse_on {..<n} {..<n} G b0"
      using top_block_invertible[OF o' n_def] unfolding G_def by blast
    have c0: "c s \<noteq> 0" for s unfolding c_def by (rule top_factor_nonzero) simp_all
    have "inverse_on {..<n} {..<n} (\<lambda>t s. G t s * c s) (\<lambda>s t. b0 s t / c s)"
      by (rule inverse_on_scale[OF c0 b0])
    then have "inverse_on {..<n} {..<n} (\<lambda>t s. cf (f t) (g s)) (\<lambda>s t. b0 s t / c s)"
    proof (rule inverse_on_cong)
      fix t s assume "t \<in> {..<n}" "s \<in> {..<n}"
      then have ts: "t < n" "s < n" by simp_all
      show "cf (f t) (g s) = G t s * c s"
        unfolding cf_def f_def g_def G_def c_def fst_conv snd_conv
        by (rule top_coefficient[OF e o' n_def ts(2) ts(1)])
    qed
    moreover have "inj_on f {..<n}" by (auto simp: inj_on_def f_def)
    moreover have "inj_on g {..<n}"
    proof (rule inj_onI)
      fix s s' assume a: "s \<in> {..<n}" "s' \<in> {..<n}" "g s = g s'"
      have "2 * s + o' \<le> L - e" "2 * s' + o' \<le> L - e" using a(1,2) o' unfolding n_def by auto
      moreover have "int (L - e - 2 * s) = int (L - e - 2 * s')"
        using a(3) by (auto simp: g_def split: if_splits)
      ultimately show "s = s'" by linarith
    qed
    ultimately have "\<exists>b. inverse_on (f ` {..<n}) (g ` {..<n}) cf b"
      by (intro inverse_on_image)
    moreover have "f ` {..<n} = {t \<in> Deg L. row_class t = (o', e)}"
      unfolding f_def n_def by (rule class_rows[OF e o'])
    moreover have "g ` {..<n} = {p \<in> Col L. col_class p = (o', e)}"
      unfolding g_def n_def by (rule class_cols[OF e o'])
    ultimately show ?thesis by (simp add: k)
  next
    case False
    have r0: "{t \<in> Deg L. row_class t = k} = {}"
      using False by (auto simp: Deg_def row_class_def k)
    have c0: "{p \<in> Col L. col_class p = k} = {}"
    proof -
      have "\<not> (p \<in> Col L \<and> col_class p = k)" for p
      proof
        assume a: "p \<in> Col L \<and> col_class p = k"
        obtain l m where p: "p = (l, m)" by (cases p)
        have l: "l = int L" "\<bar>m\<bar> \<le> l" using a by (auto simp: p Col_def)
        have o': "o' \<le> 1" using a by (auto simp: p col_class_def k split: if_splits)
        have ee: "e = nat ((l - \<bar>m\<bar>) mod 2)" using a by (auto simp: p col_class_def k)
        have "(l - \<bar>m\<bar>) mod 2 \<le> l - \<bar>m\<bar>" using l(2) by (intro zmod_le_nonneg_dividend) simp
        moreover have "(l - \<bar>m\<bar>) mod 2 \<le> 1" by presburger
        ultimately have "e \<le> 1" "int e \<le> int L" using ee l by linarith+
        then show False using False o' by simp
      qed
      then show ?thesis by blast
    qed
    show ?thesis unfolding r0 c0 using inverse_on_empty by blast
  qed
qed

lemma deg_block: "\<exists>b. inverse_on (Deg L) (Col L) cf b"
proof -
  have "\<forall>k. \<exists>b. inverse_on {t \<in> Deg L. row_class t = k} {p \<in> Col L. col_class p = k} cf b"
    using class_block by blast
  then obtain bb where bb: "\<forall>k. inverse_on {t \<in> Deg L. row_class t = k} {p \<in> Col L. col_class p = k} cf (bb k)"
    by (rule choice[THEN exE])
  have zero: "cf t p = 0" if "row_class t \<noteq> col_class p" for t p
  proof -
    obtain a b e where t: "t = (a, b, e)" by (cases t) auto
    obtain l m where p: "p = (l, m)" by (cases p)
    have m2: "0 \<le> (l - \<bar>m\<bar>) mod 2" by simp
    have "b mod 2 \<noteq> (if m < 0 then 1 else 0) \<or> e \<noteq> nat ((l - \<bar>m\<bar>) mod 2)"
      using that by (simp add: t p row_class_def col_class_def)
    then have "int b mod 2 \<noteq> (if 0 \<le> m then 0 else 1) \<or> int e \<noteq> (l - \<bar>m\<bar>) mod 2"
    proof
      assume h: "b mod 2 \<noteq> (if m < 0 then 1 else 0)"
      have "int b mod 2 = int (b mod 2)" by (simp add: zmod_int)
      then show ?thesis using h by (auto split: if_splits)
    next
      assume "e \<noteq> nat ((l - \<bar>m\<bar>) mod 2)"
      then show ?thesis using m2 by linarith
    qed
    then show ?thesis unfolding cf_def t p fst_conv snd_conv by (rule coefY_class)
  qed
  have "inverse_on (Deg L) (Col L) cf (\<lambda>j i. if row_class i = col_class j then bb (col_class j) j i else 0)"
    by (rule inverse_on_classes[OF finite_Deg finite_Col]) (simp_all add: zero bb)
  then show ?thesis by blast
qed

lemma finite_Mono: "finite (Mono L)"
proof -
  have "Mono L \<subseteq> {..L} \<times> {..L} \<times> {..1}" by (auto simp: Mono_def)
  then show ?thesis by (rule finite_subset) simp
qed

lemma finite_Pairs: "finite (Pairs L)"
proof -
  have "Pairs L \<subseteq> {0..int L} \<times> {- int L..int L}" by (auto simp: Pairs_def)
  then show ?thesis by (rule finite_subset) simp
qed

lemma Mono_Suc: "Mono (Suc L) = Mono L \<union> Deg L"
  by (auto simp: Mono_def Deg_def)

lemma Pairs_Suc: "Pairs (Suc L) = Pairs L \<union> Col L"
  by (auto simp: Pairs_def Col_def)

lemma all_block: "\<exists>b. inverse_on (Mono L) (Pairs L) cf b"
proof (induction L)
  case 0
  have "Mono 0 = {}" "Pairs 0 = {}" by (auto simp: Mono_def Pairs_def)
  then show ?case by (simp add: inverse_on_empty)
next
  case (Suc L)
  then obtain b1 where b1: "inverse_on (Mono L) (Pairs L) cf b1" by blast
  obtain b2 where b2: "inverse_on (Deg L) (Col L) cf b2" using deg_block by blast
  have zero: "cf t p = 0" if "t \<in> Deg L" "p \<in> Pairs L" for t p
  proof -
    obtain a b e where t: "t = (a, b, e)" by (cases t) auto
    obtain l m where p: "p = (l, m)" by (cases p)
    have "l < int (a + b + e)" using that by (simp add: t p Deg_def Pairs_def)
    then show ?thesis unfolding cf_def t p fst_conv snd_conv by (rule coefY_degree)
  qed
  have "\<exists>b. inverse_on (Mono L \<union> Deg L) (Pairs L \<union> Col L) cf b"
  proof (rule inverse_on_block[OF finite_Mono finite_Deg finite_Pairs finite_Col _ _ _ b1 b2])
    show "Mono L \<inter> Deg L = {}" by (auto simp: Mono_def Deg_def)
    show "Pairs L \<inter> Col L = {}" by (auto simp: Pairs_def Col_def)
  qed (rule zero)
  then show ?case by (simp add: Mono_Suc Pairs_Suc)
qed

subsection \<open>The polynomial basis enumerates the monomials\<close>

lemma poly_basis_index:
  assumes "e \<le> 1"
  shows "poly_basis ((a + b + e) * (a + b + e) + 2 * b + e) = (a, b, e)"
proof -
  define l where "l = a + b + e"
  define n where "n = l * l + 2 * b + e"
  have "real_of_int (int l) * real_of_int (int l) \<le> real n"
    by (simp add: n_def)
  moreover have "real n < (real_of_int (int l) + 1) * (real_of_int (int l) + 1)"
  proof -
    have "n < (l + 1) * (l + 1)" using assms by (simp add: n_def l_def)
    then have "real n < real ((l + 1) * (l + 1))" by (simp only: of_nat_less_iff)
    then show ?thesis by (simp add: algebra_simps)
  qed
  ultimately have fl: "\<lfloor>sqrt (real n)\<rfloor> = int l"
    by (intro floor_sqrt_eq) simp_all
  have m: "int n - int l * int l - int l = int b - int a" by (simp add: n_def l_def)
  have e: "e = 0 \<or> e = 1" using assms by linarith
  have mu: "int l - (int b - int a) = 2 * int a + int e" "int l + (int b - int a) = 2 * int b + int e"
    by (simp_all add: l_def)
  have "poly_basis n = (a, b, e)"
    unfolding poly_basis_def Let_def fl m mu using e by auto
  then show ?thesis by (simp add: n_def l_def)
qed

lemma bij_poly_basis: "bij_betw poly_basis {..<L * L} (Mono L)"
  unfolding bij_betw_def
proof
  show "inj_on poly_basis {..<L * L}"
  proof (rule inj_onI)
    fix n n' assume "poly_basis n = poly_basis n'"
    then show "n = n'"
      by (metis poly_basis_decomp prod.inject)
  qed
  show "poly_basis ` {..<L * L} = Mono L"
  proof (intro equalityI subsetI)
    fix t assume "t \<in> poly_basis ` {..<L * L}"
    then obtain n where n: "n < L * L" "t = poly_basis n" by auto
    obtain a b e where d: "poly_basis n = (a, b, e)" "e \<le> 1" "n = (a + b + e) * (a + b + e) + 2 * b + e"
      by (rule poly_basis_decomp)
    have sq: "(a + b + e) * (a + b + e) < L * L" using n(1) d(3) by linarith
    have "a + b + e < L"
    proof (rule ccontr)
      assume "\<not> a + b + e < L"
      then have "L \<le> a + b + e" by simp
      then have "L * L \<le> (a + b + e) * (a + b + e)" by (simp add: mult_le_mono)
      then show False using sq by simp
    qed
    then show "t \<in> Mono L" using d by (simp add: n(2) Mono_def)
  next
    fix t assume t: "t \<in> Mono L"
    obtain a b e where abe: "t = (a, b, e)" by (cases t) auto
    have h: "e \<le> 1" "a + b + e < L" using t by (simp_all add: abe Mono_def)
    define l where "l = a + b + e"
    have "l + 1 \<le> L" using h(2) by (simp add: l_def)
    then have "(l + 1) * (l + 1) \<le> L * L" by (simp only: mult_le_mono)
    moreover have "l * l + 2 * b + e < (l + 1) * (l + 1)" using h(1) by (simp add: l_def)
    ultimately have "l * l + 2 * b + e \<in> {..<L * L}" by simp
    moreover have "poly_basis (l * l + 2 * b + e) = t"
      unfolding l_def abe by (rule poly_basis_index[OF h(1)])
    ultimately show "t \<in> poly_basis ` {..<L * L}" by (metis imageI)
  qed
qed

subsection \<open>The harmonics of the matrix\<close>

lemma set_lm_pairs: "set (lm_pairs lmax) = Pairs (lmax + 1)"
proof (intro equalityI subsetI)
  fix x assume "x \<in> set (lm_pairs lmax)"
  then show "x \<in> Pairs (lmax + 1)" by (auto simp: lm_pairs_def Pairs_def)
next
  fix x assume x: "x \<in> Pairs (lmax + 1)"
  obtain l m where xl: "x = (l, m)" by (cases x)
  have "l \<in> {0..int lmax}" "m \<in> {- l..l}" using x by (auto simp: xl Pairs_def)
  then have "\<exists>l'\<in>{0..int lmax}. (l, m) \<in> Pair l' ` {- l'..l'}" by blast
  then show "x \<in> set (lm_pairs lmax)" by (simp add: xl lm_pairs_def)
qed

lemma bij_lm_pairs: "bij_betw (\<lambda>c. lm_pairs lmax ! c) {..<(lmax + 1) ^ 2} (Pairs (lmax + 1))"
  unfolding bij_betw_def
proof
  show "inj_on (\<lambda>c. lm_pairs lmax ! c) {..<(lmax + 1) ^ 2}"
  proof (rule inj_onI)
    fix c c' assume c: "c \<in> {..<(lmax + 1) ^ 2}" "c' \<in> {..<(lmax + 1) ^ 2}"
      and eq: "lm_pairs lmax ! c = lm_pairs lmax ! c'"
    define l where "l = \<lfloor>sqrt (real c)\<rfloor>"
    define l' where "l' = \<lfloor>sqrt (real c')\<rfloor>"
    have e1: "lm_pairs lmax ! c = (l, int c - l * l - l)"
      unfolding l_def using c(1) by (intro lm_pairs_nth) simp
    have e2: "lm_pairs lmax ! c' = (l', int c' - l' * l' - l')"
      unfolding l'_def using c(2) by (intro lm_pairs_nth) simp
    have "(l, int c - l * l - l) = (l', int c' - l' * l' - l')" using eq unfolding e1 e2 .
    then have "l = l' \<and> int c - l * l - l = int c' - l' * l' - l'" by blast
    then have "int c = int c'" by auto
    then show "c = c'" by (simp only: of_nat_eq_iff)
  qed
  have "(\<lambda>c. lm_pairs lmax ! c) ` {..<(lmax + 1) ^ 2} = set (lm_pairs lmax)"
    unfolding set_conv_nth length_lm_pairs by auto
  then show "(\<lambda>c. lm_pairs lmax ! c) ` {..<(lmax + 1) ^ 2} = Pairs (lmax + 1)"
    by (simp only: set_lm_pairs)
qed

lemma A1_inverse_exists:
  assumes "nrm \<noteq> 0"
  shows "\<exists>A M. A1 lmax nrm = Some A \<and> is_inverse ((lmax + 1) ^ 2) (numeric A) M"
proof -
  define N where "N = (lmax + 1) ^ 2"
  have NL: "N = (lmax + 1) * (lmax + 1)" by (simp add: N_def power2_eq_square)
  obtain b where b: "inverse_on (Mono (lmax + 1)) (Pairs (lmax + 1)) cf b"
    using all_block by blast
  have bp: "bij_betw poly_basis {..<N} (Mono (lmax + 1))"
    unfolding NL by (rule bij_poly_basis)
  have bl: "bij_betw (\<lambda>c. lm_pairs lmax ! c) {..<N} (Pairs (lmax + 1))"
    unfolding N_def by (rule bij_lm_pairs)
  define b' where "b' j i = b (lm_pairs lmax ! j) (poly_basis i)" for j i
  have "inverse_on {..<N} {..<N} (\<lambda>i j. cf (poly_basis i) (lm_pairs lmax ! j)) b'"
    unfolding b'_def by (rule inverse_on_reindex[OF bp bl b])
  then have "inverse_on {..<N} {..<N} (\<lambda>i j. cf (poly_basis i) (lm_pairs lmax ! j) * nrm) (\<lambda>j i. b' j i / nrm)"
    by (rule inverse_on_scale[rotated]) (rule assms)
  then have inv: "inverse_on {..<N} {..<N}
      (\<lambda>r c. nrm * coeff_of (map the (Y_terms (fst (lm_pairs lmax ! c)) (snd (lm_pairs lmax ! c)))) (poly_basis r))
      (\<lambda>j i. b' j i / nrm)"
    by (rule inverse_on_cong) (simp add: cf_def)
  obtain A where A: "A1 lmax nrm = Some A"
    "numeric A = map (\<lambda>r. map (\<lambda>c. nrm * coeff_of (map the (Y_terms (fst (lm_pairs lmax ! c)) (snd (lm_pairs lmax ! c)))) (poly_basis r))
                      [0..<N]) [0..<N]"
    using A1_numeric[of lmax nrm] unfolding N_def by blast
  have "is_inverse N (numeric A) (map (\<lambda>j. map (\<lambda>i. b' j i / nrm) [0..<N]) [0..<N])"
    unfolding A(2) by (rule is_inverse_tabulate[OF inv])
  then show ?thesis using A(1) unfolding N_def by blast
qed

lemma default_norm_nonzero: "default_norm \<noteq> 0"
  by (simp add: default_norm_def)

text \<open>
  C1.  For every \<open>lmax\<close>, \<open>A1(lmax)\<close> with the default norm \<open>2 / sqrt pi\<close> returns a
  matrix, and that matrix of side \<open>(lmax + 1)\<^sup>2\<close> has a two-sided inverse \<open>M\<close>: both products
  \<open>A1(lmax) * M\<close> and \<open>M * A1(lmax)\<close> are the identity matrix.
\<close>

theorem A1_invertible:
  "\<exists>A M. A1 lmax default_norm = Some A \<and> is_inverse ((lmax + 1) ^ 2) (numeric A) M"
  by (rule A1_inverse_exists[OF default_norm_nonzero])

theorem A1_invertible_witness:
  "\<exists>A M. A1 2 default_norm = Some A \<and> is_inverse ((2 + 1) ^ 2) (numeric A) M"
  by (rule A1_invertible[of 2])

end
